theory Spec2Isabelle
  imports Complex_Main
begin

section \<open>Values, arrays and the store\<close>

text \<open>
  A tile is a JavaScript value: a number, or \<open>undefined\<close> (what reading past the end of
  an array yields, and what a hole holds). Tile codes and indices are integers. A pixel
  coordinate or a tile size is a finite double, given by the real number it denotes
  (the sign of a zero makes no difference to this program); their quotient is rounded
  as the machine rounds it, see \<open>jsDiv\<close>.
\<close>

datatype jsval = Num int | Undefined

datatype js_error = TypeError

type_synonym addr = nat
type_synonym row = "jsval list"

text \<open>
  Row arrays are mutable objects, so they live in a store and a grid is the list of the
  addresses of its rows. The outer array of a grid is never written by the program, so
  it is kept by value. Addresses below \<open>nxt\<close> are allocated.
\<close>

record store =
  arr :: "addr \<Rightarrow> row"
  nxt :: addr

definition alloc :: "store \<Rightarrow> row \<Rightarrow> store \<times> addr" where
  "alloc h xs = (h\<lparr>arr := (arr h)(nxt h := xs), nxt := Suc (nxt h)\<rparr>, nxt h)"

text \<open>\<open>xs[i]\<close> for a number \<open>i\<close>: \<open>undefined\<close> outside the array.\<close>

definition jsGet :: "row \<Rightarrow> int \<Rightarrow> jsval" where
  "jsGet xs i = (if 0 \<le> i \<and> i < int (length xs) then xs ! nat i else Undefined)"

text \<open>\<open>xs[i] = v\<close>: past the end the array grows, the gap reads \<open>undefined\<close>.\<close>

definition jsSet :: "row \<Rightarrow> nat \<Rightarrow> jsval \<Rightarrow> row" where
  "jsSet xs i v =
     (if i < length xs then xs[i := v]
      else xs @ replicate (i - length xs) Undefined @ [v])"

text \<open>\<open>g[r][c]\<close>: a missing row makes the second index a TypeError.\<close>

definition gridAt :: "store \<Rightarrow> addr list \<Rightarrow> int \<Rightarrow> int \<Rightarrow> js_error + jsval" where
  "gridAt h g r c =
     (if 0 \<le> r \<and> r < int (length g) then Inr (jsGet (arr h (g ! nat r)) c)
      else Inl TypeError)"

section \<open>Level\<close>

record level =
  grid :: "addr list"
  ts :: real
  start :: "(nat \<times> nat) option"
  clickedTiles :: "string set"

definition rows :: "level \<Rightarrow> nat" where
  "rows L = length (grid L)"

text \<open>\<open>this.grid[0].length\<close>: a TypeError on a grid without rows.\<close>

definition cols :: "store \<Rightarrow> level \<Rightarrow> js_error + nat" where
  "cols h L = (case grid L of [] \<Rightarrow> Inl TypeError | a # _ \<Rightarrow> Inr (length (arr h a)))"

text \<open>The conjunction short-circuits: \<open>cols\<close> runs only after the three other tests.\<close>

definition inBounds :: "store \<Rightarrow> level \<Rightarrow> int \<Rightarrow> int \<Rightarrow> js_error + bool" where
  "inBounds h L r c =
     (if r \<ge> 0 \<and> c \<ge> 0 \<and> r < int (rows L)
      then (case cols h L of Inl e \<Rightarrow> Inl e | Inr n \<Rightarrow> Inr (c < int n))
      else Inr False)"

definition tileAt :: "store \<Rightarrow> level \<Rightarrow> int \<Rightarrow> int \<Rightarrow> js_error + jsval" where
  "tileAt h L r c = gridAt h (grid L) r c"

definition isWall :: "store \<Rightarrow> level \<Rightarrow> int \<Rightarrow> int \<Rightarrow> js_error + bool" where
  "isWall h L r c = (case tileAt h L r c of Inl e \<Rightarrow> Inl e | Inr v \<Rightarrow> Inr (v = Num 1))"

definition isGoal :: "store \<Rightarrow> level \<Rightarrow> int \<Rightarrow> int \<Rightarrow> js_error + bool" where
  "isGoal h L r c = (case tileAt h L r c of Inl e \<Rightarrow> Inl e | Inr v \<Rightarrow> Inr (v = Num 3))"

subsection \<open>Start-finding\<close>

text \<open>The inner loop of \<open>findStart\<close>, from column \<open>c\<close> of row \<open>r\<close>.\<close>

function scanCols :: "store \<Rightarrow> level \<Rightarrow> nat \<Rightarrow> nat \<Rightarrow> js_error + (nat \<times> nat) option" where
  "scanCols h L r c =
     (case cols h L of
        Inl e \<Rightarrow> Inl e
      | Inr n \<Rightarrow>
          if c < n then
            (case gridAt h (grid L) (int r) (int c) of
               Inl e \<Rightarrow> Inl e
             | Inr v \<Rightarrow> if v = Num 2 then Inr (Some (r, c)) else scanCols h L r (Suc c))
          else Inr None)"
  by pat_completeness auto
termination
  by (relation "measure (\<lambda>(h, L, r, c). (case cols h L of Inl e \<Rightarrow> 0 | Inr n \<Rightarrow> n - c))") auto

text \<open>The outer loop, from row \<open>r\<close>; a hit in the inner loop returns from both.\<close>

function scanRows :: "store \<Rightarrow> level \<Rightarrow> nat \<Rightarrow> js_error + (nat \<times> nat) option" where
  "scanRows h L r =
     (if r < rows L then
        (case scanCols h L r 0 of
           Inl e \<Rightarrow> Inl e
         | Inr (Some p) \<Rightarrow> Inr (Some p)
         | Inr None \<Rightarrow> scanRows h L (Suc r))
      else Inr None)"
  by pat_completeness auto
termination
  by (relation "measure (\<lambda>(h, L, r). rows L - r)") auto

declare scanCols.simps [simp del] scanRows.simps [simp del]

definition findStart :: "store \<Rightarrow> level \<Rightarrow> js_error + (nat \<times> nat) option" where
  "findStart h L = scanRows h L 0"

subsection \<open>Click handling\<close>

text \<open>
  The key of a cell is the template literal \<open>`${r},${c}`\<close>: the decimal numerals of the
  two numbers around a comma.
\<close>

definition digitChar :: "nat \<Rightarrow> char" where
  "digitChar d = ''0123456789'' ! d"

fun showNat :: "nat \<Rightarrow> string" where
  "showNat n = (if n < 10 then [digitChar n] else showNat (n div 10) @ [digitChar (n mod 10)])"

declare showNat.simps [simp del]

definition showNum :: "int \<Rightarrow> string" where
  "showNum i = (if i < 0 then CHR ''-'' # showNat (nat (- i)) else showNat (nat i))"

definition cellKey :: "int \<Rightarrow> int \<Rightarrow> string" where
  "cellKey r c = showNum r @ '','' @ showNum c"

text \<open>
  \<open>x / y\<close> on doubles (IEEE 754 binary64, round to nearest, ties to even). The exact
  quotient \<open>q\<close> lies in a binade \<open>2 ^ e \<le> \<bar>q\<bar> < 2 ^ (e + 1)\<close>; there the doubles are the
  multiples of \<open>2 ^ (e - 52)\<close>, and below \<open>2 ^ - 1022\<close> (the subnormal range) the multiples
  of \<open>2 ^ - 1074\<close>. The quotient is rounded to the nearest multiple, to the even one of
  two equally near; a result of magnitude \<open>2 ^ 1024\<close> or more is an infinity. \<open>None\<close>
  stands for the results that are no finite number: an infinity, and the NaN or
  infinity of a division by zero.
\<close>

definition pow2 :: "int \<Rightarrow> real" where
  "pow2 p = (if 0 \<le> p then 2 ^ nat p else 1 / 2 ^ nat (- p))"

text \<open>The binade of a number that is not zero: \<open>expo q = \<lfloor>log\<^sub>2 \<bar>q\<bar>\<rfloor>\<close>.\<close>

function expo :: "real \<Rightarrow> int" where
  "expo q =
     (if q = 0 then 0
      else if 2 \<le> \<bar>q\<bar> then expo (q / 2) + 1
      else if \<bar>q\<bar> < 1 then expo (q * 2) - 1
      else 0)"
  by pat_completeness auto
termination
proof (relation "measure (\<lambda>q. nat \<bar>\<lfloor>log 2 \<bar>q\<bar>\<rfloor>\<bar>)")
  show "wf (measure (\<lambda>q. nat \<bar>\<lfloor>log 2 \<bar>q\<bar>\<rfloor>\<bar>))" by simp
next
  fix q :: real
  assume q: "q \<noteq> 0" and b: "2 \<le> \<bar>q\<bar>"
  have "log 2 \<bar>q / 2\<bar> = log 2 \<bar>q\<bar> - 1" using q by (simp add: log_divide)
  then have f: "\<lfloor>log 2 \<bar>q / 2\<bar>\<rfloor> = \<lfloor>log 2 \<bar>q\<bar>\<rfloor> - 1" by simp
  from b have "1 \<le> log 2 \<bar>q\<bar>" by (simp add: le_log_iff)
  then have "1 \<le> \<lfloor>log 2 \<bar>q\<bar>\<rfloor>" by (simp add: le_floor_iff)
  then show "(q / 2, q) \<in> measure (\<lambda>q. nat \<bar>\<lfloor>log 2 \<bar>q\<bar>\<rfloor>\<bar>)"
    by (simp only: in_measure f; arith)
next
  fix q :: real
  assume q: "q \<noteq> 0" and b: "\<bar>q\<bar> < 1"
  have "log 2 \<bar>q * 2\<bar> = log 2 \<bar>q\<bar> + 1" using q by (simp add: log_mult abs_mult)
  then have f: "\<lfloor>log 2 \<bar>q * 2\<bar>\<rfloor> = \<lfloor>log 2 \<bar>q\<bar>\<rfloor> + 1" by simp
  from b q have "log 2 \<bar>q\<bar> < 0" by simp
  then have "\<lfloor>log 2 \<bar>q\<bar>\<rfloor> \<le> - 1" by (simp add: floor_le_iff)
  then show "(q * 2, q) \<in> measure (\<lambda>q. nat \<bar>\<lfloor>log 2 \<bar>q\<bar>\<rfloor>\<bar>)"
    by (simp only: in_measure f; arith)
qed

declare expo.simps [simp del]

text \<open>The exponent of the spacing of the doubles around \<open>q\<close>.\<close>

definition ulpExp :: "real \<Rightarrow> int" where
  "ulpExp q = (if \<bar>q\<bar> < pow2 (- 1022) then - 1074 else expo q - 52)"

definition roundHalfEven :: "real \<Rightarrow> int" where
  "roundHalfEven m =
     (let f = \<lfloor>m\<rfloor>;
          d = m - of_int f
      in if d < 1 / 2 then f else if 1 / 2 < d then f + 1 else if even f then f else f + 1)"

definition roundDouble :: "real \<Rightarrow> real option" where
  "roundDouble q =
     (let u = pow2 (ulpExp q);
          r = of_int (roundHalfEven (q / u)) * u
      in if 2 ^ 1024 \<le> \<bar>r\<bar> then None else Some r)"

definition jsDiv :: "real \<Rightarrow> real \<Rightarrow> real option" where
  "jsDiv x y = (if y = 0 then None else roundDouble (x / y))"

text \<open>\<open>Math.floor\<close>: an infinity or NaN stays what it is.\<close>

definition jsFloor :: "real option \<Rightarrow> int option" where
  "jsFloor v = (case v of None \<Rightarrow> None | Some q \<Rightarrow> Some \<lfloor>q\<rfloor>)"

text \<open>
  When \<open>r\<close> or \<open>c\<close> is an infinity or NaN, \<open>inBounds(r, c)\<close> is false and raises nothing:
  one of the comparisons with a number fails, and \<open>cols()\<close> is reached only with a row
  in range, so with a first row. That is the last case below.
\<close>

definition handleClick :: "store \<Rightarrow> level \<Rightarrow> real \<Rightarrow> real \<Rightarrow> js_error + level" where
  "handleClick h L mouseX mouseY =
     (let c = jsFloor (jsDiv mouseX (ts L));
          r = jsFloor (jsDiv mouseY (ts L))
      in case (r, c) of
           (Some r, Some c) \<Rightarrow>
             (case inBounds h L r c of
                Inl e \<Rightarrow> Inl e
              | Inr b \<Rightarrow>
                  if b then
                    let key = cellKey r c
                    in if key \<in> clickedTiles L
                       then Inr (L\<lparr>clickedTiles := clickedTiles L - {key}\<rparr>)
                       else Inr (L\<lparr>clickedTiles := insert key (clickedTiles L)\<rparr>)
                  else Inr L)
         | _ \<Rightarrow> Inr L)"

subsection \<open>Constructor\<close>

text \<open>\<open>g[r][c] = v\<close>, a write into the row array that \<open>g[r]\<close> refers to.\<close>

definition gridSet :: "store \<Rightarrow> addr list \<Rightarrow> nat \<Rightarrow> nat \<Rightarrow> jsval \<Rightarrow> js_error + store" where
  "gridSet h g r c v =
     (if r < length g then Inr (h\<lparr>arr := (arr h)(g ! r := jsSet (arr h (g ! r)) c v)\<rparr>)
      else Inl TypeError)"

text \<open>
  While \<open>findStart\<close> runs, \<open>start\<close> and \<open>clickedTiles\<close> are not assigned yet (and not
  read); they stand as \<open>None\<close> and the empty set.
\<close>

definition Level_new :: "store \<Rightarrow> addr list \<Rightarrow> real \<Rightarrow> js_error + (store \<times> level)" where
  "Level_new h g tileSize =
     (let this = \<lparr>grid = g, ts = tileSize, start = None, clickedTiles = {}\<rparr>
      in case findStart h this of
           Inl e \<Rightarrow> Inl e
         | Inr None \<Rightarrow> Inr (h, this\<lparr>start := None, clickedTiles := {}\<rparr>)
         | Inr (Some (r, c)) \<Rightarrow>
             (case gridSet h g r c (Num 0) of
                Inl e \<Rightarrow> Inl e
              | Inr h' \<Rightarrow> Inr (h', this\<lparr>start := Some (r, c), clickedTiles := {}\<rparr>)))"

section \<open>The sketch\<close>

definition TS :: real where
  "TS = 32"

text \<open>\<open>grid.map((row) => row.slice())\<close>: a fresh array for every row, in order.\<close>

fun copyGrid :: "store \<Rightarrow> addr list \<Rightarrow> store \<times> addr list" where
  "copyGrid h [] = (h, [])"
| "copyGrid h (a # as) =
     (let (h1, a') = alloc h (arr h a);
          (h2, as') = copyGrid h1 as
      in (h2, a' # as'))"

text \<open>The level index is a number that can become NaN (a remainder by zero).\<close>

datatype index = Idx int | NaN

text \<open>
  The globals of the sketch, with the store that holds the row arrays. Of the player
  only its cell is kept, and of the canvas only its size.
\<close>

record sketch =
  heap :: store
  levelsData :: "addr list list"
  levels :: "level list"
  li :: index
  player :: "int \<times> int"
  canvas :: "real \<times> real"

text \<open>
  Modelled from the spec: \<open>Player.setCell(r, c)\<close> (Player.js is not among the sources)
  puts the player marker on cell \<open>(r, c)\<close>. The cell of a new player is a parameter of
  \<open>setupSketch\<close>.
\<close>

definition setCell :: "sketch \<Rightarrow> int \<Rightarrow> int \<Rightarrow> sketch" where
  "setCell S r c = S\<lparr>player := (r, c)\<rparr>"

text \<open>\<open>levels[li]\<close>: \<open>undefined\<close> (here \<open>None\<close>) when there is no such element.\<close>

fun levelAt :: "level list \<Rightarrow> index \<Rightarrow> level option" where
  "levelAt Ls (Idx i) = (if 0 \<le> i \<and> i < int (length Ls) then Some (Ls ! nat i) else None)"
| "levelAt Ls NaN = None"

definition pixelWidth :: "store \<Rightarrow> level \<Rightarrow> js_error + real" where
  "pixelWidth h L = (case cols h L of Inl e \<Rightarrow> Inl e | Inr n \<Rightarrow> Inr (real n * ts L))"

definition pixelHeight :: "level \<Rightarrow> real" where
  "pixelHeight L = real (rows L) * ts L"

text \<open>\<open>resizeCanvas\<close> belongs to the drawing library; here it records the size.\<close>

definition resizeCanvas :: "sketch \<Rightarrow> real \<Rightarrow> real \<Rightarrow> sketch" where
  "resizeCanvas S w ht = S\<lparr>canvas := (w, ht)\<rparr>"

text \<open>
  An exception leaves the assignments made before it in place, so every operation of
  the sketch returns the state it reached together with the error, if one was raised.
\<close>

definition loadLevel :: "sketch \<Rightarrow> index \<Rightarrow> sketch \<times> js_error option" where
  "loadLevel S idx =
     (let S1 = S\<lparr>li := idx\<rparr>
      in case levelAt (levels S1) (li S1) of
           None \<Rightarrow> (S1, Some TypeError)
         | Some lv \<Rightarrow>
             (let S2 = (case start lv of
                          Some (r, c) \<Rightarrow> setCell S1 (int r) (int c)
                        | None \<Rightarrow> setCell S1 1 1)
              in (case pixelWidth (heap S2) lv of
                    Inl e \<Rightarrow> (S2, Some e)
                  | Inr w \<Rightarrow> (resizeCanvas S2 w (pixelHeight lv), None))))"

text \<open>
  \<open>(li + 1) % levels.length\<close>: the remainder has the sign of the dividend, and is NaN
  when the divisor is zero.
\<close>

fun jsSucc :: "index \<Rightarrow> index" where
  "jsSucc (Idx i) = Idx (i + 1)"
| "jsSucc NaN = NaN"

fun jsRem :: "index \<Rightarrow> nat \<Rightarrow> index" where
  "jsRem (Idx a) n = (if n = 0 then NaN else Idx (sgn a * (\<bar>a\<bar> mod int n)))"
| "jsRem NaN n = NaN"

definition nextLevel :: "sketch \<Rightarrow> sketch \<times> js_error option" where
  "nextLevel S = loadLevel S (jsRem (jsSucc (li S)) (length (levels S)))"

text \<open>
  \<open>levelsData.levels.map((grid) => new Level(copyGrid(grid), TS))\<close>, the first
  statement of the sketch's \<open>setup\<close> (a reserved word here, hence \<open>setupSketch\<close>).
  The constructor raises nothing (lemma \<open>Level_new_total\<close>), so the error branches
  are there for the types only.
\<close>

fun buildLevels :: "store \<Rightarrow> addr list list \<Rightarrow> js_error + (store \<times> level list)" where
  "buildLevels h [] = Inr (h, [])"
| "buildLevels h (g # gs) =
     (let (h1, g') = copyGrid h g
      in case Level_new h1 g' TS of
           Inl e \<Rightarrow> Inl e
         | Inr (h2, L) \<Rightarrow>
             (case buildLevels h2 gs of
                Inl e \<Rightarrow> Inl e
              | Inr (h3, Ls) \<Rightarrow> Inr (h3, L # Ls)))"

definition setupSketch :: "sketch \<Rightarrow> int \<times> int \<Rightarrow> sketch \<times> js_error option" where
  "setupSketch S newPlayer =
     (case buildLevels (heap S) (levelsData S) of
        Inl e \<Rightarrow> (S, Some e)
      | Inr (h', Ls) \<Rightarrow> loadLevel (S\<lparr>heap := h', levels := Ls, player := newPlayer\<rparr>) (Idx 0))"

text \<open>
  \<open>levels[li].handleClick(mouseX, mouseY)\<close>; the click changes the level in place.
  \<open>draw\<close> and \<open>drawHUD\<close> only read the state and are not modelled.
\<close>

definition mousePressed :: "sketch \<Rightarrow> real \<Rightarrow> real \<Rightarrow> sketch \<times> js_error option" where
  "mousePressed S mouseX mouseY =
     (case li S of
        NaN \<Rightarrow> (S, Some TypeError)
      | Idx i \<Rightarrow>
          (case levelAt (levels S) (Idx i) of
             None \<Rightarrow> (S, Some TypeError)
           | Some lv \<Rightarrow>
               (case handleClick (heap S) lv mouseX mouseY of
                  Inl e \<Rightarrow> (S, Some e)
                | Inr lv' \<Rightarrow> (S\<lparr>levels := (levels S)[nat i := lv']\<rparr>, None))))"

section \<open>Vocabulary of the properties\<close>

text \<open>
  A cell \<open>(r, c)\<close> holds the start tile when the row array \<open>r\<close> exists, has an element
  \<open>c\<close>, and that element is the number 2. Row-major order compares rows first, then
  columns.
\<close>

definition holdsStart :: "store \<Rightarrow> level \<Rightarrow> nat \<Rightarrow> nat \<Rightarrow> bool" where
  "holdsStart h L r c =
     (r < length (grid L) \<and> c < length (arr h (grid L ! r)) \<and> arr h (grid L ! r) ! c = Num 2)"

definition rowMajorLe :: "nat \<times> nat \<Rightarrow> nat \<times> nat \<Rightarrow> bool" where
  "rowMajorLe p q = (fst p < fst q \<or> (fst p = fst q \<and> snd p \<le> snd q))"

text \<open>
  The code takes the length of the first row for the number of columns. Two conditions
  on the other rows, both true of a rectangular grid: none is longer than the first,
  none is shorter.
\<close>

definition noRowLonger :: "store \<Rightarrow> level \<Rightarrow> bool" where
  "noRowLonger h L =
     (case grid L of [] \<Rightarrow> True
      | a # as \<Rightarrow> list_all (\<lambda>b. length (arr h b) \<le> length (arr h a)) as)"

definition noRowShorter :: "store \<Rightarrow> level \<Rightarrow> bool" where
  "noRowShorter h L =
     (case grid L of [] \<Rightarrow> True
      | a # as \<Rightarrow> list_all (\<lambda>b. length (arr h a) \<le> length (arr h b)) as)"

text \<open>
  The states of a level: the one its constructor returns, and those reached from it by
  clicks, and by the copying and construction of other levels in the same store. The
  rows handed to the constructor are allocated arrays.
\<close>

inductive reachable :: "store \<Rightarrow> level \<Rightarrow> bool" where
  constructed:
    "list_all (\<lambda>a. a < nxt h) g \<Longrightarrow> Level_new h g t = Inr (h', L) \<Longrightarrow> reachable h' L"
| clicked:
    "reachable h L \<Longrightarrow> handleClick h L mouseX mouseY = Inr L' \<Longrightarrow> reachable h L'"
| other_constructed:
    "reachable h L \<Longrightarrow> Level_new h g t = Inr (h', L2) \<Longrightarrow> reachable h' L"
| other_copied:
    "reachable h L \<Longrightarrow> copyGrid h g = (h', g') \<Longrightarrow> reachable h' L"

code_pred reachable .

definition keysInBounds :: "store \<Rightarrow> level \<Rightarrow> bool" where
  "keysInBounds h L =
     (\<forall>k \<in> clickedTiles L. \<exists>r c. inBounds h L r c = Inr True \<and> k = cellKey r c)"

text \<open>
  The states of the sketch: before \<open>setup\<close> there is no level and the index is 0; then
  come \<open>setup\<close>, level changes and clicks, each with or without an error.
\<close>

inductive reachableSketch :: "sketch \<Rightarrow> bool" where
  initial:
    "levels S = [] \<Longrightarrow> li S = Idx 0 \<Longrightarrow> reachableSketch S"
| after_setup:
    "reachableSketch S \<Longrightarrow> setupSketch S newPlayer = (S', e) \<Longrightarrow> reachableSketch S'"
| after_nextLevel:
    "reachableSketch S \<Longrightarrow> nextLevel S = (S', e) \<Longrightarrow> reachableSketch S'"
| after_mousePressed:
    "reachableSketch S \<Longrightarrow> mousePressed S mouseX mouseY = (S', e) \<Longrightarrow> reachableSketch S'"

code_pred reachableSketch .

section \<open>Properties\<close>

subsection \<open>Start-finding\<close>

lemma gridAt_start: "gridAt h (grid L) (int r) (int c) = Inr (Num 2) \<longleftrightarrow> holdsStart h L r c"
  by (auto simp: gridAt_def jsGet_def holdsStart_def)

lemma gridAt_rows: "r < rows L \<Longrightarrow> \<exists>v. gridAt h (grid L) (int r) c = Inr v"
  by (simp add: gridAt_def rows_def)

lemma cols_rows: "r < rows L \<Longrightarrow> \<exists>n. cols h L = Inr n"
  by (cases "grid L") (simp_all add: cols_def rows_def)

lemma scanCols_no_error: "r < rows L \<Longrightarrow> scanCols h L r c \<noteq> Inl e"
proof (induction h L r c rule: scanCols.induct)
  case (1 h L r c)
  from "1.prems" obtain n where n: "cols h L = Inr n" using cols_rows by blast
  from "1.prems" obtain v where v: "gridAt h (grid L) (int r) (int c) = Inr v"
    using gridAt_rows by blast
  show ?case
  proof (cases "c < n \<and> v \<noteq> Num 2")
    case True
    with "1.IH"[OF n _ v] "1.prems" have "scanCols h L r (Suc c) \<noteq> Inl e" by simp
    with True n v show ?thesis by (subst scanCols.simps) simp
  next
    case False
    with n v show ?thesis by (subst scanCols.simps) auto
  qed
qed

lemma scanCols_Some:
  "cols h L = Inr n \<Longrightarrow> scanCols h L r c = Inr (Some p) \<Longrightarrow>
   fst p = r \<and> c \<le> snd p \<and> snd p < n \<and> holdsStart h L r (snd p) \<and>
   (\<forall>k. c \<le> k \<and> k < snd p \<longrightarrow> \<not> holdsStart h L r k)"
proof (induction h L r c rule: scanCols.induct)
  case (1 h L r c)
  note n = "1.prems"(1)
  show ?case
  proof (cases "gridAt h (grid L) (int r) (int c)")
    case (Inl e)
    with n "1.prems"(2) show ?thesis by (subst (asm) scanCols.simps) (simp split: if_splits)
  next
    case (Inr v)
    show ?thesis
    proof (cases "v = Num 2")
      case True
      with n Inr "1.prems"(2) have "c < n" "p = (r, c)"
        by (subst (asm) scanCols.simps, simp split: if_splits)+
      with True Inr show ?thesis by (auto simp: gridAt_start[symmetric])
    next
      case False
      with n Inr "1.prems"(2) have cn: "c < n" and rec: "scanCols h L r (Suc c) = Inr (Some p)"
        by (subst (asm) scanCols.simps, simp split: if_splits)+
      from "1.IH"[OF n cn Inr False n rec]
      have ih: "fst p = r \<and> Suc c \<le> snd p \<and> snd p < n \<and> holdsStart h L r (snd p) \<and>
        (\<forall>k. Suc c \<le> k \<and> k < snd p \<longrightarrow> \<not> holdsStart h L r k)" .
      from False Inr have "\<not> holdsStart h L r c" by (simp add: gridAt_start[symmetric])
      with ih show ?thesis by (auto simp: order_le_less[of c] order_le_less[of r] intro: Suc_leI)
    qed
  qed
qed

lemma scanCols_None:
  "cols h L = Inr n \<Longrightarrow> scanCols h L r c = Inr None \<Longrightarrow>
   (\<forall>k. c \<le> k \<and> k < n \<longrightarrow> \<not> holdsStart h L r k)"
proof (induction h L r c rule: scanCols.induct)
  case (1 h L r c)
  note n = "1.prems"(1)
  show ?case
  proof (cases "c < n")
    case False
    then show ?thesis by auto
  next
    case True
    show ?thesis
    proof (cases "gridAt h (grid L) (int r) (int c)")
      case (Inl e)
      with n True "1.prems"(2) show ?thesis by (subst (asm) scanCols.simps) simp
    next
      case (Inr v)
      with n True "1.prems"(2) have v: "v \<noteq> Num 2" and rec: "scanCols h L r (Suc c) = Inr None"
        by (subst (asm) scanCols.simps, simp split: if_splits)+
      from "1.IH"[OF n True Inr v n rec]
      have ih: "\<forall>k. Suc c \<le> k \<and> k < n \<longrightarrow> \<not> holdsStart h L r k" .
      from v Inr have "\<not> holdsStart h L r c" by (simp add: gridAt_start[symmetric])
      with ih show ?thesis by (auto simp: order_le_less[of c] order_le_less[of r] intro: Suc_leI)
    qed
  qed
qed


lemma scanRows_no_error: "scanRows h L r \<noteq> Inl e"
proof (induction h L r rule: scanRows.induct)
  case (1 h L r)
  show ?case
  proof (cases "r < rows L")
    case False
    then show ?thesis by (subst scanRows.simps) simp
  next
    case True
    show ?thesis
    proof (cases "scanCols h L r 0")
      case (Inl e')
      with True scanCols_no_error show ?thesis by blast
    next
      case (Inr s)
      show ?thesis
      proof (cases s)
        case None
        with "1.IH"[OF True Inr] True Inr show ?thesis by (subst scanRows.simps) simp
      next
        case (Some p)
        with True Inr show ?thesis by (subst scanRows.simps) simp
      qed
    qed
  qed
qed

lemma scanRows_Some:
  "cols h L = Inr n \<Longrightarrow> scanRows h L r = Inr (Some p) \<Longrightarrow>
   r \<le> fst p \<and> fst p < rows L \<and> snd p < n \<and> holdsStart h L (fst p) (snd p) \<and>
   (\<forall>k. k < snd p \<longrightarrow> \<not> holdsStart h L (fst p) k) \<and>
   (\<forall>r' k. r \<le> r' \<and> r' < fst p \<and> k < n \<longrightarrow> \<not> holdsStart h L r' k)"
proof (induction h L r rule: scanRows.induct)
  case (1 h L r)
  note n = "1.prems"(1)
  from "1.prems"(2) have rr: "r < rows L"
    by (subst (asm) scanRows.simps) (simp split: if_splits)
  show ?case
  proof (cases "scanCols h L r 0")
    case (Inl e)
    with rr scanCols_no_error show ?thesis by blast
  next
    case (Inr s)
    show ?thesis
    proof (cases s)
      case (Some q)
      with rr Inr "1.prems"(2) have "q = p"
        by (subst (asm) scanRows.simps) simp
      with Some Inr scanCols_Some[OF n, of r 0 p] rr show ?thesis by auto
    next
      case None
      with rr Inr "1.prems"(2) have rec: "scanRows h L (Suc r) = Inr (Some p)"
        by (subst (asm) scanRows.simps) simp
      from None Inr have row: "\<forall>k. k < n \<longrightarrow> \<not> holdsStart h L r k"
        using scanCols_None[OF n, of r 0] by simp
      from "1.IH"[OF rr _ _ n rec] Inr None
      have ih: "Suc r \<le> fst p \<and> fst p < rows L \<and> snd p < n \<and> holdsStart h L (fst p) (snd p) \<and>
        (\<forall>k. k < snd p \<longrightarrow> \<not> holdsStart h L (fst p) k) \<and>
        (\<forall>r' k. Suc r \<le> r' \<and> r' < fst p \<and> k < n \<longrightarrow> \<not> holdsStart h L r' k)" by simp
      with row show ?thesis by (auto simp: order_le_less[of c] order_le_less[of r] intro: Suc_leI)
    qed
  qed
qed

lemma scanRows_None:
  "cols h L = Inr n \<Longrightarrow> scanRows h L r = Inr None \<Longrightarrow>
   (\<forall>r' k. r \<le> r' \<and> r' < rows L \<and> k < n \<longrightarrow> \<not> holdsStart h L r' k)"
proof (induction h L r rule: scanRows.induct)
  case (1 h L r)
  note n = "1.prems"(1)
  show ?case
  proof (cases "r < rows L")
    case False
    then show ?thesis by auto
  next
    case rr: True
    show ?thesis
    proof (cases "scanCols h L r 0")
      case (Inl e)
      with rr scanCols_no_error show ?thesis by blast
    next
      case (Inr s)
      show ?thesis
      proof (cases s)
        case (Some q)
        with rr Inr "1.prems"(2) show ?thesis
          by (subst (asm) scanRows.simps) simp
      next
        case None
        with rr Inr "1.prems"(2) have rec: "scanRows h L (Suc r) = Inr None"
          by (subst (asm) scanRows.simps) simp
        from None Inr have row: "\<forall>k. k < n \<longrightarrow> \<not> holdsStart h L r k"
          using scanCols_None[OF n, of r 0] by simp
        from "1.IH"[OF rr _ _ n rec] Inr None
        have ih: "\<forall>r' k. Suc r \<le> r' \<and> r' < rows L \<and> k < n \<longrightarrow> \<not> holdsStart h L r' k" by simp
        with row show ?thesis by (auto simp: order_le_less[of c] order_le_less[of r] intro: Suc_leI)
      qed
    qed
  qed
qed


lemma findStart_no_error: "findStart h L \<noteq> Inl e"
  by (simp add: findStart_def scanRows_no_error)

lemma findStart_empty: "grid L = [] \<Longrightarrow> findStart h L = Inr None"
  by (simp add: findStart_def scanRows.simps rows_def)

lemma rowMajorLe_antisym: "rowMajorLe p q \<Longrightarrow> rowMajorLe q p \<Longrightarrow> p = q"
  by (auto simp: rowMajorLe_def prod_eq_iff)

lemma findStart_Some_scan:
  assumes g: "grid L = a # as" and f: "findStart h L = Inr (Some (r, c))"
  shows "c < length (arr h a) \<and> holdsStart h L r c \<and>
         (\<forall>r' c'. holdsStart h L r' c' \<and> c' < length (arr h a) \<longrightarrow> rowMajorLe (r, c) (r', c'))"
proof -
  from g have n: "cols h L = Inr (length (arr h a))" by (simp add: cols_def)
  from scanRows_Some[OF n, of 0 "(r, c)"] f
  have s: "r < rows L" "c < length (arr h a)" "holdsStart h L r c"
    "\<forall>k. k < c \<longrightarrow> \<not> holdsStart h L r k"
    "\<forall>r' k. r' < r \<and> k < length (arr h a) \<longrightarrow> \<not> holdsStart h L r' k"
    by (simp_all add: findStart_def)
  have "rowMajorLe (r, c) (r', c')" if "holdsStart h L r' c'" "c' < length (arr h a)" for r' c'
  proof -
    from s(5) that have "\<not> r' < r" by blast
    moreover from s(4) that have "r' = r \<Longrightarrow> \<not> c' < c" by blast
    ultimately show ?thesis by (auto simp: rowMajorLe_def)
  qed
  with s show ?thesis by blast
qed

lemma findStart_None_scan:
  assumes g: "grid L = a # as" and f: "findStart h L = Inr None"
  shows "\<forall>r c. c < length (arr h a) \<longrightarrow> \<not> holdsStart h L r c"
proof -
  from g have n: "cols h L = Inr (length (arr h a))" by (simp add: cols_def)
  from scanRows_None[OF n, of 0] f
  have "\<forall>r' k. r' < rows L \<and> k < length (arr h a) \<longrightarrow> \<not> holdsStart h L r' k"
    by (simp add: findStart_def)
  then show ?thesis by (auto simp: holdsStart_def rows_def)
qed

lemma noRowLonger_bound:
  assumes "noRowLonger h L" "grid L = a # as" "holdsStart h L r c"
  shows "c < length (arr h a)"
proof -
  from assms(3) have r: "r < length (grid L)" and c: "c < length (arr h (grid L ! r))"
    by (simp_all add: holdsStart_def)
  from assms(1,2) have "\<forall>b \<in> set (grid L). length (arr h b) \<le> length (arr h a)"
    by (auto simp: noRowLonger_def list_all_iff)
  with r have "length (arr h (grid L ! r)) \<le> length (arr h a)" by simp
  with c show ?thesis by simp
qed

text \<open>
  Claim C1, as amended. In a grid none of whose rows is longer than the first (every
  rectangular grid is one), \<open>findStart\<close> raises nothing; it returns null exactly when no
  cell holds the value 2; it returns \<open>(r, c)\<close> exactly when that cell holds 2 and comes
  first, in row-major order, among the cells holding 2; so when exactly one cell holds
  2 it returns that cell.
\<close>

theorem findStart_first_start:
  assumes nl: "noRowLonger h L"
  shows "(\<exists>s. findStart h L = Inr s) \<and>
         (findStart h L = Inr None \<longleftrightarrow> (\<forall>r' c'. \<not> holdsStart h L r' c')) \<and>
         (findStart h L = Inr (Some (r, c)) \<longleftrightarrow>
            holdsStart h L r c \<and> (\<forall>r' c'. holdsStart h L r' c' \<longrightarrow> rowMajorLe (r, c) (r', c'))) \<and>
         (holdsStart h L r c \<and> (\<forall>r' c'. holdsStart h L r' c' \<longrightarrow> r' = r \<and> c' = c)
            \<longrightarrow> findStart h L = Inr (Some (r, c)))"
proof -
  obtain s where s: "findStart h L = Inr s"
    using findStart_no_error[of h L] by (cases "findStart h L") auto
  have none: "\<forall>r' c'. \<not> holdsStart h L r' c'" if "findStart h L = Inr None"
  proof (cases "grid L")
    case Nil
    then show ?thesis by (simp add: holdsStart_def)
  next
    case (Cons a as)
    with findStart_None_scan[OF Cons that] noRowLonger_bound[OF nl Cons] show ?thesis by blast
  qed
  have some: "holdsStart h L r0 c0 \<and> (\<forall>r' c'. holdsStart h L r' c' \<longrightarrow> rowMajorLe (r0, c0) (r', c'))"
    if "findStart h L = Inr (Some (r0, c0))" for r0 c0
  proof (cases "grid L")
    case Nil
    with that findStart_empty[of L h] show ?thesis by simp
  next
    case (Cons a as)
    with findStart_Some_scan[OF Cons that] noRowLonger_bound[OF nl Cons] show ?thesis by blast
  qed
  have least: "findStart h L = Inr (Some (r0, c0))"
    if h: "holdsStart h L r0 c0" and m: "\<forall>r' c'. holdsStart h L r' c' \<longrightarrow> rowMajorLe (r0, c0) (r', c')"
    for r0 c0
  proof (cases s)
    case None
    with s none h show ?thesis by blast
  next
    case (Some p)
    obtain r1 c1 where p: "p = (r1, c1)" by (cases p)
    from some[of r1 c1] s Some p
    have "holdsStart h L r1 c1" "rowMajorLe (r1, c1) (r0, c0)" using h by auto
    with m have "(r1, c1) = (r0, c0)" using rowMajorLe_antisym by blast
    with s Some p show ?thesis by simp
  qed
  have noneI: "findStart h L = Inr None" if "\<forall>r' c'. \<not> holdsStart h L r' c'"
  proof (cases s)
    case None
    with s show ?thesis by simp
  next
    case (Some p)
    with s some[of "fst p" "snd p"] that show ?thesis by simp
  qed
  have uniq: "findStart h L = Inr (Some (r, c))"
    if "holdsStart h L r c" "\<forall>r' c'. holdsStart h L r' c' \<longrightarrow> r' = r \<and> c' = c"
  proof -
    from that(2) have "\<forall>r' c'. holdsStart h L r' c' \<longrightarrow> rowMajorLe (r, c) (r', c')"
      by (simp add: rowMajorLe_def)
    with least[of r c] that(1) show ?thesis by blast
  qed
  have a: "\<exists>s. findStart h L = Inr s" using s by blast
  have b: "findStart h L = Inr None \<longleftrightarrow> (\<forall>r' c'. \<not> holdsStart h L r' c')"
    using none noneI by blast
  have c: "findStart h L = Inr (Some (r, c)) \<longleftrightarrow>
            holdsStart h L r c \<and> (\<forall>r' c'. holdsStart h L r' c' \<longrightarrow> rowMajorLe (r, c) (r', c'))"
    using some[of r c] least[of r c] by blast
  from uniq have d: "holdsStart h L r c \<and> (\<forall>r' c'. holdsStart h L r' c' \<longrightarrow> r' = r \<and> c' = c)
            \<longrightarrow> findStart h L = Inr (Some (r, c))" by blast
  show ?thesis by (intro conjI) (rule a, rule b, rule c, rule d)
qed

theorem findStart_first_start_witness:
  "holdsStart \<lparr>arr = (\<lambda>_. [])(0 := [Num 1, Num 2, Num 1], 1 := [Num 2, Num 0, Num 3]), nxt = 2\<rparr>
     \<lparr>grid = [0, 1], ts = 32, start = None, clickedTiles = {}\<rparr> 0 1 \<and>
   rowMajorLe (0, 1) (1, 0)"
proof -
  let ?h = "\<lparr>arr = (\<lambda>_. [])(0 := [Num 1, Num 2, Num 1], 1 := [Num 2, Num 0, Num 3]), nxt = 2\<rparr>"
  let ?L = "\<lparr>grid = [0, 1], ts = 32, start = None, clickedTiles = {}\<rparr>"
  have nl: "noRowLonger ?h ?L" by (simp add: noRowLonger_def)
  have f: "findStart ?h ?L = Inr (Some (0, 1))"
    by (simp add: findStart_def scanRows.simps scanCols.simps rows_def cols_def gridAt_def jsGet_def)
  have o: "holdsStart ?h ?L 1 0" by (simp add: holdsStart_def)
  from findStart_first_start[OF nl, of 0 1] f o show ?thesis by blast
qed

text \<open>
  The scan stops at the length of the first row, so the claim as stated for every grid
  fails on \<open>[[0], [0, 2]]\<close>: the 2 at row 1, column 1 is not found.
\<close>

theorem findStart_ragged_counterexample:
  "findStart \<lparr>arr = (\<lambda>_. [])(0 := [Num 0], 1 := [Num 0, Num 2]), nxt = 2\<rparr>
     \<lparr>grid = [0, 1], ts = 32, start = None, clickedTiles = {}\<rparr> = Inr None \<and>
   holdsStart \<lparr>arr = (\<lambda>_. [])(0 := [Num 0], 1 := [Num 0, Num 2]), nxt = 2\<rparr>
     \<lparr>grid = [0, 1], ts = 32, start = None, clickedTiles = {}\<rparr> 1 1"
  by (simp add: findStart_def scanRows.simps scanCols.simps rows_def cols_def gridAt_def
      jsGet_def holdsStart_def)

subsection \<open>Bounds and tile queries\<close>

lemma inBounds_value:
  "inBounds h L r c =
     Inr (0 \<le> r \<and> r < int (rows L) \<and> 0 \<le> c \<and> (\<exists>n. cols h L = Inr n \<and> c < int n))"
proof (cases "grid L")
  case Nil
  then show ?thesis by (auto simp: inBounds_def rows_def)
next
  case (Cons a as)
  then show ?thesis by (auto simp: inBounds_def rows_def cols_def)
qed

text \<open>
  Claim C5. For all integers \<open>r\<close> and \<open>c\<close>, \<open>inBounds(r, c)\<close> raises nothing and is true
  exactly when \<open>0 \<le> r < rows()\<close> and \<open>0 \<le> c < cols()\<close>, where \<open>rows()\<close> is the length of
  the grid and \<open>cols()\<close> the length of its first row. (On a grid without rows \<open>cols()\<close>
  would raise, but no \<open>r\<close> passes the row test, so it is never reached.)
\<close>

theorem inBounds_iff:
  "inBounds h L r c = Inr (0 \<le> r \<and> r < int (rows L) \<and> 0 \<le> c \<and> (\<exists>n. cols h L = Inr n \<and> c < int n)) \<and>
   rows L = length (grid L) \<and>
   (\<forall>a as. grid L = a # as \<longrightarrow> cols h L = Inr (length (arr h a)))"
  using inBounds_value[of h L r c] by (simp add: rows_def cols_def)

theorem inBounds_iff_witness:
  "inBounds \<lparr>arr = (\<lambda>_. [])(0 := [Num 1, Num 2, Num 1], 1 := [Num 2, Num 0, Num 3]), nxt = 2\<rparr>
     \<lparr>grid = [0, 1], ts = 32, start = None, clickedTiles = {}\<rparr> 1 2 = Inr True \<and>
   cols \<lparr>arr = (\<lambda>_. [])(0 := [Num 1, Num 2, Num 1], 1 := [Num 2, Num 0, Num 3]), nxt = 2\<rparr>
     \<lparr>grid = [0, 1], ts = 32, start = None, clickedTiles = {}\<rparr> = Inr 3"
  using inBounds_iff[of "\<lparr>arr = (\<lambda>_. [])(0 := [Num 1, Num 2, Num 1], 1 := [Num 2, Num 0, Num 3]), nxt = 2\<rparr>"
     "\<lparr>grid = [0, 1], ts = 32, start = None, clickedTiles = {}\<rparr>" 1 2]
  by (simp add: rows_def)

lemma inBounds_no_error: "inBounds h L r c \<noteq> Inl e"
  by (simp add: inBounds_value)

lemma inBounds_True:
  "inBounds h L r c = Inr True \<longleftrightarrow>
   0 \<le> r \<and> r < int (length (grid L)) \<and> 0 \<le> c \<and> c < int (length (arr h (hd (grid L))))"
  by (cases "grid L") (auto simp: inBounds_def rows_def cols_def)

lemma tileAt_inBounds_row: "inBounds h L r c = Inr True \<Longrightarrow> \<exists>v. tileAt h L r c = Inr v"
  by (simp add: inBounds_True tileAt_def gridAt_def)

lemma noRowShorter_bound:
  assumes "noRowShorter h L" "r < length (grid L)"
  shows "length (arr h (hd (grid L))) \<le> length (arr h (grid L ! r))"
proof (cases "grid L")
  case Nil
  with assms(2) show ?thesis by simp
next
  case (Cons a as)
  with assms(1) have "\<forall>b \<in> set (grid L). length (arr h a) \<le> length (arr h b)"
    by (auto simp: noRowShorter_def list_all_iff)
  with assms(2) Cons show ?thesis by (metis list.sel(1) nth_mem)
qed

text \<open>
  Claim C6, as amended. In any grid, for every \<open>(r, c)\<close> with \<open>inBounds(r, c)\<close> the access
  of \<open>tileAt\<close> hits an existing row and raises nothing, and \<open>isWall\<close> and \<open>isGoal\<close> are true
  exactly when the value it reads is 1 and 3. In a grid none of whose rows is shorter
  than the first (every rectangular grid is one), the access also hits an existing
  column of that row, so \<open>isWall\<close> is true exactly when the stored tile is 1 and \<open>isGoal\<close>
  exactly when it is 3.
\<close>

theorem isWall_isGoal_inBounds:
  assumes "inBounds h L r c = Inr True"
  shows "nat r < length (grid L) \<and>
         tileAt h L r c = Inr (jsGet (arr h (grid L ! nat r)) c) \<and>
         isWall h L r c = Inr (jsGet (arr h (grid L ! nat r)) c = Num 1) \<and>
         isGoal h L r c = Inr (jsGet (arr h (grid L ! nat r)) c = Num 3) \<and>
         (noRowShorter h L \<longrightarrow>
            nat c < length (arr h (grid L ! nat r)) \<and>
            tileAt h L r c = Inr (arr h (grid L ! nat r) ! nat c) \<and>
            isWall h L r c = Inr (arr h (grid L ! nat r) ! nat c = Num 1) \<and>
            isGoal h L r c = Inr (arr h (grid L ! nat r) ! nat c = Num 3))"
proof -
  from assms have b: "0 \<le> r" "r < int (length (grid L))" "0 \<le> c"
    "c < int (length (arr h (hd (grid L))))"
    by (simp_all add: inBounds_True)
  from b(1,2) have r: "nat r < length (grid L)" by simp
  from b(1,2) have t: "tileAt h L r c = Inr (jsGet (arr h (grid L ! nat r)) c)"
    by (simp add: tileAt_def gridAt_def)
  have rect: "nat c < length (arr h (grid L ! nat r)) \<and>
      jsGet (arr h (grid L ! nat r)) c = arr h (grid L ! nat r) ! nat c"
    if n: "noRowShorter h L"
  proof -
    from noRowShorter_bound[OF n r] b(3,4)
    have c: "c < int (length (arr h (grid L ! nat r)))" by simp
    with b(3) show ?thesis by (simp add: jsGet_def)
  qed
  from r t rect show ?thesis by (simp add: isWall_def isGoal_def)
qed

theorem isWall_isGoal_inBounds_witness:
  "isWall \<lparr>arr = (\<lambda>_. [])(0 := [Num 1, Num 2, Num 1], 1 := [Num 2, Num 0, Num 3]), nxt = 2\<rparr>
     \<lparr>grid = [0, 1], ts = 32, start = None, clickedTiles = {}\<rparr> 1 2 = Inr False \<and>
   isGoal \<lparr>arr = (\<lambda>_. [])(0 := [Num 1, Num 2, Num 1], 1 := [Num 2, Num 0, Num 3]), nxt = 2\<rparr>
     \<lparr>grid = [0, 1], ts = 32, start = None, clickedTiles = {}\<rparr> 1 2 = Inr True"
proof -
  let ?h = "\<lparr>arr = (\<lambda>_. [])(0 := [Num 1, Num 2, Num 1], 1 := [Num 2, Num 0, Num 3]), nxt = 2\<rparr>"
  let ?L = "\<lparr>grid = [0, 1], ts = 32, start = None, clickedTiles = {}\<rparr>"
  have b: "inBounds ?h ?L 1 2 = Inr True" by (simp add: inBounds_def rows_def cols_def)
  have n: "noRowShorter ?h ?L" by (simp add: noRowShorter_def)
  from isWall_isGoal_inBounds[OF b] n
  have "isWall ?h ?L 1 2 = Inr (arr ?h (grid ?L ! nat 1) ! nat 2 = Num 1) \<and>
        isGoal ?h ?L 1 2 = Inr (arr ?h (grid ?L ! nat 1) ! nat 2 = Num 3)" by blast
  then show ?thesis by simp
qed

text \<open>
  \<open>inBounds\<close> compares the column with the length of the first row only, so the claim as
  stated fails on \<open>[[0, 0], [0]]\<close>: \<open>(1, 1)\<close> is in bounds, row 1 has no column 1, and
  \<open>tileAt\<close> reads \<open>undefined\<close>.
\<close>

theorem tileAt_ragged_counterexample:
  "inBounds \<lparr>arr = (\<lambda>_. [])(0 := [Num 0, Num 0], 1 := [Num 0]), nxt = 2\<rparr>
     \<lparr>grid = [0, 1], ts = 32, start = None, clickedTiles = {}\<rparr> 1 1 = Inr True \<and>
   tileAt \<lparr>arr = (\<lambda>_. [])(0 := [Num 0, Num 0], 1 := [Num 0]), nxt = 2\<rparr>
     \<lparr>grid = [0, 1], ts = 32, start = None, clickedTiles = {}\<rparr> 1 1 = Inr Undefined \<and>
   length (arr \<lparr>arr = (\<lambda>_. [])(0 := [Num 0, Num 0], 1 := [Num 0]), nxt = 2\<rparr>
     (grid \<lparr>grid = [0, 1], ts = 32, start = None, clickedTiles = {}\<rparr> ! 1)) = 1"
  by (simp add: inBounds_def rows_def cols_def tileAt_def gridAt_def jsGet_def)

subsection \<open>Keys\<close>

lemma showNat_nonempty: "showNat n \<noteq> []"
  by (subst showNat.simps) simp

lemma digitChar_inj: "a < 10 \<Longrightarrow> b < 10 \<Longrightarrow> digitChar a = digitChar b \<Longrightarrow> a = b"
proof -
  assume a: "a < 10" and b: "b < 10" and e: "digitChar a = digitChar b"
  from a have "a \<in> {0, 1, 2, 3, 4, 5, 6, 7, 8, 9}" by auto
  moreover from b have "b \<in> {0, 1, 2, 3, 4, 5, 6, 7, 8, 9}" by auto
  ultimately show ?thesis using e by (auto simp: digitChar_def)
qed

lemma digitChar_plain: "d < 10 \<Longrightarrow> digitChar d \<noteq> CHR '','' \<and> digitChar d \<noteq> CHR ''-''"
proof -
  assume "d < 10"
  then have "d \<in> {0, 1, 2, 3, 4, 5, 6, 7, 8, 9}" by auto
  then show ?thesis by (auto simp: digitChar_def)
qed

lemma showNat_plain: "CHR '','' \<notin> set (showNat n) \<and> CHR ''-'' \<notin> set (showNat n)"
proof (induction n rule: showNat.induct)
  case (1 n)
  show ?case
  proof (cases "n < 10")
    case True
    with digitChar_plain[of n] show ?thesis by (subst (1 2) showNat.simps) auto
  next
    case False
    with "1.IH" digitChar_plain[of "n mod 10"] show ?thesis
      by (subst (1 2) showNat.simps) auto
  qed
qed

lemma showNat_inj: "showNat m = showNat n \<Longrightarrow> m = n"
proof (induction m arbitrary: n rule: showNat.induct)
  case (1 m)
  show ?case
  proof (cases "m < 10")
    case m: True
    show ?thesis
    proof (cases "n < 10")
      case True
      with m "1.prems" have "digitChar m = digitChar n"
        by (subst (asm) showNat.simps, subst (asm) (2) showNat.simps) simp
      with m True show ?thesis by (rule digitChar_inj)
    next
      case False
      with m "1.prems" have "[digitChar m] = showNat (n div 10) @ [digitChar (n mod 10)]"
        by (subst (asm) showNat.simps, subst (asm) (2) showNat.simps) simp
      with showNat_nonempty[of "n div 10"] show ?thesis by simp
    qed
  next
    case m: False
    show ?thesis
    proof (cases "n < 10")
      case True
      with m "1.prems" have "showNat (m div 10) @ [digitChar (m mod 10)] = [digitChar n]"
        by (subst (asm) showNat.simps, subst (asm) (2) showNat.simps) simp
      with showNat_nonempty[of "m div 10"] show ?thesis by simp
    next
      case False
      with m "1.prems" have "showNat (m div 10) @ [digitChar (m mod 10)] =
          showNat (n div 10) @ [digitChar (n mod 10)]"
        by (subst (asm) showNat.simps, subst (asm) (2) showNat.simps) simp
      then have e: "showNat (m div 10) = showNat (n div 10)"
        and d: "digitChar (m mod 10) = digitChar (n mod 10)" by simp_all
      from "1.IH"[OF m e] have "m div 10 = n div 10" .
      moreover from d have "m mod 10 = n mod 10" by (intro digitChar_inj) simp_all
      ultimately show ?thesis by (metis div_mult_mod_eq)
    qed
  qed
qed

lemma showNum_no_comma: "CHR '','' \<notin> set (showNum i)"
  using showNat_plain[of "nat i"] showNat_plain[of "nat (- i)"]
  by (auto simp: showNum_def)

lemma showNat_no_minus: "showNat n \<noteq> CHR ''-'' # xs"
proof
  assume "showNat n = CHR ''-'' # xs"
  then have "CHR ''-'' \<in> set (showNat n)" by simp
  with showNat_plain[of n] show False by blast
qed

lemma showNum_inj: "showNum i = showNum j \<Longrightarrow> i = j"
proof -
  assume e: "showNum i = showNum j"
  show ?thesis
  proof (cases "i < 0")
    case i: True
    show ?thesis
    proof (cases "j < 0")
      case True
      with i e have "showNat (nat (- i)) = showNat (nat (- j))" by (simp add: showNum_def)
      from showNat_inj[OF this] i True show ?thesis by simp
    next
      case False
      with i e have "showNat (nat j) = CHR ''-'' # showNat (nat (- i))" by (simp add: showNum_def)
      with showNat_no_minus show ?thesis by blast
    qed
  next
    case i: False
    show ?thesis
    proof (cases "j < 0")
      case True
      with i e have "showNat (nat i) = CHR ''-'' # showNat (nat (- j))" by (simp add: showNum_def)
      with showNat_no_minus show ?thesis by blast
    next
      case False
      with i e have "showNat (nat i) = showNat (nat j)" by (simp add: showNum_def)
      from showNat_inj[OF this] i False show ?thesis by simp
    qed
  qed
qed

lemma split_at_separator:
  "x \<notin> set xs \<Longrightarrow> x \<notin> set xs' \<Longrightarrow> xs @ x # ys = xs' @ x # ys' \<Longrightarrow> xs = xs' \<and> ys = ys'"
proof (induction xs arbitrary: xs')
  case Nil
  then show ?case by (cases xs') auto
next
  case (Cons a xs)
  then show ?case by (cases xs') auto
qed

lemma cellKey_inj: "cellKey r c = cellKey r' c' \<Longrightarrow> r = r' \<and> c = c'"
proof -
  assume "cellKey r c = cellKey r' c'"
  then have "showNum r @ CHR '','' # showNum c = showNum r' @ CHR '','' # showNum c'"
    by (simp add: cellKey_def)
  from split_at_separator[OF showNum_no_comma showNum_no_comma this]
  show ?thesis using showNum_inj by blast
qed

subsection \<open>Clicks\<close>

lemma pow2_Suc: "pow2 (p + 1) = 2 * pow2 p"
proof (cases "0 \<le> p")
  case True
  then have "nat (p + 1) = Suc (nat p)" by simp
  with True show ?thesis by (simp add: pow2_def)
next
  case False
  then have "nat (- p) = Suc (nat (- (p + 1)))" by simp
  with False show ?thesis by (simp add: pow2_def)
qed

lemma pow2_pos: "0 < pow2 p"
  by (simp add: pow2_def)

text \<open>\<open>expo\<close> finds the binade.\<close>

lemma expo_bounds: "q \<noteq> 0 \<Longrightarrow> pow2 (expo q) \<le> \<bar>q\<bar> \<and> \<bar>q\<bar> < pow2 (expo q + 1)"
proof (induction q rule: expo.induct)
  case (1 q)
  show ?case
  proof (cases "2 \<le> \<bar>q\<bar>")
    case True
    with "1.prems" "1.IH"(1)
    have ih: "pow2 (expo (q / 2)) \<le> \<bar>q / 2\<bar>" "\<bar>q / 2\<bar> < pow2 (expo (q / 2) + 1)"
      by simp_all
    from True "1.prems" have e: "expo q = expo (q / 2) + 1" by (subst expo.simps) simp
    from ih show ?thesis unfolding e pow2_Suc by simp
  next
    case F: False
    show ?thesis
    proof (cases "\<bar>q\<bar> < 1")
      case True
      with F "1.prems" "1.IH"(2)
      have ih: "pow2 (expo (q * 2)) \<le> \<bar>q * 2\<bar>" "\<bar>q * 2\<bar> < pow2 (expo (q * 2) + 1)"
        by simp_all
      from True F "1.prems" have e: "expo q = expo (q * 2) - 1" by (subst expo.simps) simp
      have "pow2 (expo (q * 2)) = 2 * pow2 (expo (q * 2) - 1)"
        using pow2_Suc[of "expo (q * 2) - 1"] by simp
      with ih pow2_Suc[of "expo (q * 2)"] show ?thesis unfolding e by (simp add: abs_mult)
    next
      case False
      with F "1.prems" have "expo q = 0" by (subst expo.simps) simp
      with F False show ?thesis by (simp add: pow2_def)
    qed
  qed
qed

lemma roundHalfEven_near: "\<bar>of_int (roundHalfEven m) - m\<bar> \<le> 1 / 2"
  by (auto simp: roundHalfEven_def Let_def)

lemma roundHalfEven_int: "roundHalfEven (of_int n) = n"
  by (simp add: roundHalfEven_def)

text \<open>
  The quotient the model returns is a multiple of the spacing and at most half a
  spacing from the exact quotient; an exact quotient that is such a multiple, and
  finite, is returned as it is.
\<close>

lemma jsDiv_nearest:
  assumes "jsDiv x y = Some r"
  shows "y \<noteq> 0 \<and> \<bar>r - x / y\<bar> \<le> pow2 (ulpExp (x / y)) / 2 \<and>
         (\<exists>m. r = of_int m * pow2 (ulpExp (x / y)))"
proof -
  let ?u = "pow2 (ulpExp (x / y))"
  let ?m = "roundHalfEven (x / y / ?u)"
  from assms have y: "y \<noteq> 0" by (auto simp: jsDiv_def split: if_splits)
  with assms have r: "r = of_int ?m * ?u"
    by (auto simp: jsDiv_def roundDouble_def Let_def split: if_splits)
  have u: "0 < ?u" by (rule pow2_pos)
  have "\<bar>of_int ?m - x / y / ?u\<bar> \<le> 1 / 2" by (rule roundHalfEven_near)
  then have "\<bar>of_int ?m - x / y / ?u\<bar> * ?u \<le> 1 / 2 * ?u"
    using u by (intro mult_right_mono) simp_all
  moreover have "\<bar>of_int ?m - x / y / ?u\<bar> * ?u = \<bar>of_int ?m * ?u - x / y\<bar>"
  proof -
    have "\<bar>of_int ?m - x / y / ?u\<bar> * ?u = \<bar>(of_int ?m - x / y / ?u) * ?u\<bar>"
      using u by (simp add: abs_mult)
    also have "(of_int ?m - x / y / ?u) * ?u = of_int ?m * ?u - x / y"
      using u by (simp add: field_simps)
    finally show ?thesis .
  qed
  ultimately have "\<bar>r - x / y\<bar> \<le> ?u / 2" using r by simp
  with y r show ?thesis by blast
qed

lemma jsDiv_exact:
  assumes "y \<noteq> 0" and "x / y = of_int m * pow2 (ulpExp (x / y))" and "\<bar>x / y\<bar> < 2 ^ 1024"
  shows "jsDiv x y = Some (x / y)"
proof -
  let ?u = "pow2 (ulpExp (x / y))"
  have u: "?u \<noteq> 0" using pow2_pos[of "ulpExp (x / y)"] by simp
  from assms(2) have "x / y / ?u = of_int m * ?u / ?u" by simp
  with u have "x / y / ?u = of_int m" by simp
  then have "of_int (roundHalfEven (x / y / ?u)) * ?u = x / y"
    using assms(2) by (simp add: roundHalfEven_int)
  with assms(1,3) show ?thesis by (simp add: jsDiv_def roundDouble_def Let_def)
qed

text \<open>
  Two quotients. Half a pixel over the double nearest to 0.1 rounds up to 5, where
  the exact quotient is below 5. The smallest negative double over 32 underflows to
  zero, where the exact quotient is negative.
\<close>

lemma jsDiv_rounds_to_five:
  "jsFloor (jsDiv (1 / 2) (3602879701896397 / 36028797018963968)) = Some 5 \<and>
   \<lfloor>(1 / 2) / (3602879701896397 / 36028797018963968 :: real)\<rfloor> = 4"
  by (simp add: jsFloor_def jsDiv_def roundDouble_def ulpExp_def expo.simps pow2_def
      roundHalfEven_def Let_def)

lemma jsDiv_underflows_to_zero:
  "jsFloor (jsDiv (- 1 / 2 ^ 1074) 32) = Some 0 \<and> \<lfloor>(- 1 / 2 ^ 1074) / (32 :: real)\<rfloor> = - 1"
  by (simp add: jsFloor_def jsDiv_def roundDouble_def ulpExp_def pow2_def
      roundHalfEven_def Let_def)

lemma handleClick_zero: "ts L = 0 \<Longrightarrow> handleClick h L x y = Inr L"
  by (simp add: handleClick_def jsDiv_def jsFloor_def)

lemma inBounds_cases: "inBounds h L r c = Inr True \<or> inBounds h L r c = Inr False"
  by (auto simp: inBounds_value)

lemma inBounds_clicked [simp]: "inBounds h (L\<lparr>clickedTiles := S\<rparr>) r c = inBounds h L r c"
  by (simp add: inBounds_def rows_def cols_def)

text \<open>The two outcomes of a click: nothing, or the key of the target cell toggled.\<close>

lemma handleClick_cases:
  "(handleClick h L x y = Inr L \<and>
      \<not> (\<exists>r c. jsFloor (jsDiv y (ts L)) = Some r \<and> jsFloor (jsDiv x (ts L)) = Some c \<and>
              inBounds h L r c = Inr True)) \<or>
   (\<exists>r c. jsFloor (jsDiv y (ts L)) = Some r \<and> jsFloor (jsDiv x (ts L)) = Some c \<and>
      inBounds h L r c = Inr True \<and>
      handleClick h L x y =
        Inr (L\<lparr>clickedTiles :=
          (if cellKey r c \<in> clickedTiles L then clickedTiles L - {cellKey r c}
           else insert (cellKey r c) (clickedTiles L))\<rparr>))"
proof (cases "jsFloor (jsDiv y (ts L))")
  case None
  then show ?thesis by (simp add: handleClick_def)
next
  case r: (Some r)
  show ?thesis
  proof (cases "jsFloor (jsDiv x (ts L))")
    case None
    with r show ?thesis by (simp add: handleClick_def)
  next
    case c: (Some c)
    from inBounds_cases[of h L r c] show ?thesis
    proof
      assume "inBounds h L r c = Inr True"
      with r c show ?thesis by (simp add: handleClick_def Let_def)
    next
      assume "inBounds h L r c = Inr False"
      with r c show ?thesis by (simp add: handleClick_def)
    qed
  qed
qed

text \<open>
  Claim C3. For every pixel coordinate, \<open>handleClick(mouseX, mouseY)\<close> raises nothing and
  leaves grid, tile size and start as they were. Its target is the cell of column
  \<open>Math.floor(mouseX / tileSize)\<close> and row \<open>Math.floor(mouseY / tileSize)\<close>, the quotients
  being those of doubles. When that cell is in bounds, its key changes membership in
  \<open>clickedTiles\<close> and no other key does (so the paint of that cell is toggled and that
  of no other cell); when it is not, or when a quotient is no finite number (as with
  a tile size of zero), the level is unchanged.
\<close>

theorem handleClick_cell:
  "\<exists>L'. handleClick h L x y = Inr L' \<and>
         grid L' = grid L \<and> ts L' = ts L \<and> start L' = start L \<and>
         (case (jsFloor (jsDiv y (ts L)), jsFloor (jsDiv x (ts L))) of
            (Some r, Some c) \<Rightarrow>
              if inBounds h L r c = Inr True
              then (\<forall>k. k \<in> clickedTiles L' \<longleftrightarrow>
                     (if k = cellKey r c then k \<notin> clickedTiles L else k \<in> clickedTiles L)) \<and>
                   (\<forall>r' c'. cellKey r' c' \<in> clickedTiles L' \<longleftrightarrow>
                     (if r' = r \<and> c' = c then cellKey r' c' \<notin> clickedTiles L
                      else cellKey r' c' \<in> clickedTiles L))
              else L' = L
          | _ \<Rightarrow> L' = L)"
proof -
  from handleClick_cases[of h L x y] show ?thesis
  proof
    assume "handleClick h L x y = Inr L \<and>
      \<not> (\<exists>r c. jsFloor (jsDiv y (ts L)) = Some r \<and> jsFloor (jsDiv x (ts L)) = Some c \<and>
              inBounds h L r c = Inr True)"
    then show ?thesis by (auto split: option.splits)
  next
    assume "\<exists>r c. jsFloor (jsDiv y (ts L)) = Some r \<and> jsFloor (jsDiv x (ts L)) = Some c \<and>
      inBounds h L r c = Inr True \<and>
      handleClick h L x y =
        Inr (L\<lparr>clickedTiles :=
          (if cellKey r c \<in> clickedTiles L then clickedTiles L - {cellKey r c}
           else insert (cellKey r c) (clickedTiles L))\<rparr>)"
    then obtain r c where t: "jsFloor (jsDiv y (ts L)) = Some r" "jsFloor (jsDiv x (ts L)) = Some c"
      "inBounds h L r c = Inr True"
      and c: "handleClick h L x y =
        Inr (L\<lparr>clickedTiles :=
          (if cellKey r c \<in> clickedTiles L then clickedTiles L - {cellKey r c}
           else insert (cellKey r c) (clickedTiles L))\<rparr>)" by blast
    from c t show ?thesis by (auto dest: cellKey_inj)
  qed
qed

text \<open>
  Claim C2. For every level and every pixel coordinate, two calls of \<open>handleClick\<close> with
  the same coordinates raise nothing and give back the level as it was, \<open>clickedTiles\<close>
  included; when the coordinate maps to an in-bounds cell, the key of that cell is in
  \<open>clickedTiles\<close> after the first call exactly when it was not before.
\<close>

theorem handleClick_twice:
  "\<exists>L1. handleClick h L x y = Inr L1 \<and> handleClick h L1 x y = Inr L \<and>
     (\<forall>r c. jsFloor (jsDiv y (ts L)) = Some r \<and> jsFloor (jsDiv x (ts L)) = Some c \<and>
        inBounds h L r c = Inr True \<longrightarrow>
        (cellKey r c \<in> clickedTiles L1 \<longleftrightarrow> cellKey r c \<notin> clickedTiles L))"
proof -
  from handleClick_cases[of h L x y] show ?thesis
  proof
    assume "handleClick h L x y = Inr L \<and>
      \<not> (\<exists>r c. jsFloor (jsDiv y (ts L)) = Some r \<and> jsFloor (jsDiv x (ts L)) = Some c \<and>
              inBounds h L r c = Inr True)"
    then show ?thesis by auto
  next
    assume "\<exists>r c. jsFloor (jsDiv y (ts L)) = Some r \<and> jsFloor (jsDiv x (ts L)) = Some c \<and>
      inBounds h L r c = Inr True \<and>
      handleClick h L x y =
        Inr (L\<lparr>clickedTiles :=
          (if cellKey r c \<in> clickedTiles L then clickedTiles L - {cellKey r c}
           else insert (cellKey r c) (clickedTiles L))\<rparr>)"
    then obtain r c where t: "jsFloor (jsDiv y (ts L)) = Some r" "jsFloor (jsDiv x (ts L)) = Some c"
      "inBounds h L r c = Inr True"
      and c: "handleClick h L x y =
        Inr (L\<lparr>clickedTiles :=
          (if cellKey r c \<in> clickedTiles L then clickedTiles L - {cellKey r c}
           else insert (cellKey r c) (clickedTiles L))\<rparr>)" by blast
    let ?k = "cellKey r c"
    let ?L1 = "L\<lparr>clickedTiles := (if ?k \<in> clickedTiles L then clickedTiles L - {?k}
                 else insert ?k (clickedTiles L))\<rparr>"
    have "handleClick h ?L1 x y = Inr L"
      using t by (auto simp: handleClick_def Let_def insert_absorb)
    with c t show ?thesis by auto
  qed
qed

lemma click_70_40:
  "jsFloor (jsDiv 40 32) = Some 1 \<and> jsFloor (jsDiv 70 32) = Some 2"
  by (simp add: jsFloor_def jsDiv_def roundDouble_def ulpExp_def expo.simps pow2_def
      roundHalfEven_def Let_def)

theorem handleClick_cell_witness:
  "handleClick \<lparr>arr = (\<lambda>_. [])(0 := [Num 1, Num 2, Num 1], 1 := [Num 2, Num 0, Num 3]), nxt = 2\<rparr>
     \<lparr>grid = [0, 1], ts = 32, start = None, clickedTiles = {}\<rparr> 70 40 =
   Inr \<lparr>grid = [0, 1], ts = 32, start = None, clickedTiles = {''1,2''}\<rparr>"
proof -
  let ?h = "\<lparr>arr = (\<lambda>_. [])(0 := [Num 1, Num 2, Num 1], 1 := [Num 2, Num 0, Num 3]), nxt = 2\<rparr>"
  let ?L = "\<lparr>grid = [0, 1], ts = 32, start = None, clickedTiles = {}\<rparr>"
  have k: "cellKey 1 2 = ''1,2''" by code_simp
  have b: "inBounds ?h ?L 1 2 = Inr True" by (simp add: inBounds_def rows_def cols_def)
  from handleClick_cell[of ?h ?L 70 40] obtain L' where
    L': "handleClick ?h ?L 70 40 = Inr L'" "grid L' = [0, 1]" "ts L' = 32" "start L' = None"
      "\<forall>k. k \<in> clickedTiles L' \<longleftrightarrow> k = ''1,2''"
    using b k click_70_40 by auto
  from L'(5) have "clickedTiles L' = {''1,2''}" by blast
  with L'(2-4) have "L' = \<lparr>grid = [0, 1], ts = 32, start = None, clickedTiles = {''1,2''}\<rparr>"
    by (cases L') simp
  with L'(1) show ?thesis by simp
qed

theorem handleClick_twice_witness:
  "cellKey 1 2 \<in> clickedTiles \<lparr>grid = [0, 1], ts = 32, start = None, clickedTiles = {''1,2''}\<rparr>"
proof -
  let ?h = "\<lparr>arr = (\<lambda>_. [])(0 := [Num 1, Num 2, Num 1], 1 := [Num 2, Num 0, Num 3]), nxt = 2\<rparr>"
  let ?L = "\<lparr>grid = [0, 1], ts = 32, start = None, clickedTiles = {}\<rparr>"
  have k: "cellKey 1 2 = ''1,2''" by code_simp
  have b: "inBounds ?h ?L 1 2 = Inr True" by (simp add: inBounds_def rows_def cols_def)
  have c: "handleClick ?h ?L 70 40 =
    Inr \<lparr>grid = [0, 1], ts = 32, start = None, clickedTiles = {''1,2''}\<rparr>"
    using b k click_70_40 by (simp add: handleClick_def)
  from handleClick_twice[of ?h ?L 70 40] b c click_70_40 show ?thesis by simp
qed

subsection \<open>Constructor\<close>

lemma jsSet_in_range: "c < length xs \<Longrightarrow> jsSet xs c v = xs[c := v]"
  by (simp add: jsSet_def)

lemma findStart_Some_holds:
  assumes "findStart h L = Inr (Some (r, c))"
  shows "holdsStart h L r c"
proof (cases "grid L")
  case Nil
  with assms findStart_empty[of L h] show ?thesis by simp
next
  case (Cons a as)
  from findStart_Some_scan[OF Cons assms] show ?thesis by blast
qed

lemma findStart_cases:
  "findStart h L = Inr None \<or> (\<exists>r c. findStart h L = Inr (Some (r, c)))"
proof (cases "findStart h L")
  case (Inl e)
  with findStart_no_error show ?thesis by blast
next
  case (Inr s)
  then show ?thesis by (cases s) auto
qed

lemma Level_new_None:
  "findStart h \<lparr>grid = g, ts = t, start = None, clickedTiles = {}\<rparr> = Inr None \<Longrightarrow>
   Level_new h g t = Inr (h, \<lparr>grid = g, ts = t, start = None, clickedTiles = {}\<rparr>)"
  by (simp add: Level_new_def)

lemma Level_new_Some:
  assumes f: "findStart h \<lparr>grid = g, ts = t, start = None, clickedTiles = {}\<rparr> = Inr (Some (r, c))"
  shows "Level_new h g t =
           Inr (h\<lparr>arr := (arr h)(g ! r := (arr h (g ! r))[c := Num 0])\<rparr>,
                \<lparr>grid = g, ts = t, start = Some (r, c), clickedTiles = {}\<rparr>) \<and>
         r < length g \<and> c < length (arr h (g ! r)) \<and> arr h (g ! r) ! c = Num 2"
proof -
  from findStart_Some_holds[OF f]
  have s: "r < length g" "c < length (arr h (g ! r))" "arr h (g ! r) ! c = Num 2"
    by (simp_all add: holdsStart_def)
  with f show ?thesis by (simp add: Level_new_def gridSet_def jsSet_in_range)
qed

lemma Level_new_total: "\<exists>h' L. Level_new h g t = Inr (h', L)"
proof -
  let ?L0 = "\<lparr>grid = g, ts = t, start = None, clickedTiles = {}\<rparr>"
  from findStart_cases[of h ?L0] show ?thesis
  proof
    assume "findStart h ?L0 = Inr None"
    from Level_new_None[OF this] show ?thesis by blast
  next
    assume "\<exists>r c. findStart h ?L0 = Inr (Some (r, c))"
    then obtain r c where f: "findStart h ?L0 = Inr (Some (r, c))" by blast
    from Level_new_Some[OF f] show ?thesis by blast
  qed
qed

lemma Level_new_unclicked: "Level_new h g t = Inr (h', L) \<Longrightarrow> clickedTiles L = {}"
proof -
  assume n: "Level_new h g t = Inr (h', L)"
  let ?L0 = "\<lparr>grid = g, ts = t, start = None, clickedTiles = {}\<rparr>"
  from findStart_cases[of h ?L0] show ?thesis
  proof
    assume "findStart h ?L0 = Inr None"
    from Level_new_None[OF this] n show ?thesis by auto
  next
    assume "\<exists>r c. findStart h ?L0 = Inr (Some (r, c))"
    then obtain r c where f: "findStart h ?L0 = Inr (Some (r, c))" by blast
    from Level_new_Some[OF f] n show ?thesis by auto
  qed
qed

text \<open>
  Claim C8. The constructor raises nothing, for every store and grid. If it found a
  start tile, then in the store it leaves behind the grid holds 0 at the start
  coordinates: \<open>tileAt\<close> reads 0 there, \<open>isWall\<close> and \<open>isGoal\<close> are false there, and the
  start coordinates no longer name a cell holding 2.
\<close>

theorem Level_new_start_is_floor:
  "\<exists>h' L. Level_new h g t = Inr (h', L) \<and> grid L = g \<and> ts L = t \<and> clickedTiles L = {} \<and>
     (\<forall>r c. start L = Some (r, c) \<longrightarrow>
        r < length (grid L) \<and> c < length (arr h' (grid L ! r)) \<and>
        arr h' (grid L ! r) ! c = Num 0 \<and>
        tileAt h' L (int r) (int c) = Inr (Num 0) \<and>
        isWall h' L (int r) (int c) = Inr False \<and>
        isGoal h' L (int r) (int c) = Inr False \<and>
        \<not> holdsStart h' L r c)"
proof -
  let ?L0 = "\<lparr>grid = g, ts = t, start = None, clickedTiles = {}\<rparr>"
  from findStart_cases[of h ?L0] show ?thesis
  proof
    assume "findStart h ?L0 = Inr None"
    from Level_new_None[OF this] show ?thesis by simp
  next
    assume "\<exists>r c. findStart h ?L0 = Inr (Some (r, c))"
    then obtain r c where f: "findStart h ?L0 = Inr (Some (r, c))" by blast
    from Level_new_Some[OF f] show ?thesis
      by (simp add: tileAt_def gridAt_def jsGet_def isWall_def isGoal_def holdsStart_def)
  qed
qed

theorem Level_new_start_is_floor_witness:
  "tileAt \<lparr>arr = (\<lambda>_. [])(0 := [Num 1, Num 1, Num 1], 1 := [Num 1, Num 0, Num 3]), nxt = 2\<rparr>
     \<lparr>grid = [0, 1], ts = 32, start = Some (1, 1), clickedTiles = {}\<rparr> 1 1 = Inr (Num 0)"
proof -
  let ?h = "\<lparr>arr = (\<lambda>_. [])(0 := [Num 1, Num 1, Num 1], 1 := [Num 1, Num 2, Num 3]), nxt = 2\<rparr>"
  let ?h' = "\<lparr>arr = (\<lambda>_. [])(0 := [Num 1, Num 1, Num 1], 1 := [Num 1, Num 0, Num 3]), nxt = 2\<rparr>"
  let ?L = "\<lparr>grid = [0, 1], ts = 32, start = Some (1, 1), clickedTiles = {}\<rparr>"
  have n: "Level_new ?h [0, 1] 32 = Inr (?h', ?L)"
    by (simp add: Level_new_def findStart_def scanRows.simps scanCols.simps rows_def cols_def
        gridAt_def jsGet_def gridSet_def jsSet_def fun_upd_twist)
  from Level_new_start_is_floor[of ?h "[0, 1]" 32] n show ?thesis by simp
qed


subsection \<open>Copies and the raw data\<close>

lemma copyGrid_fresh:
  "list_all (\<lambda>a. a < nxt h) g \<Longrightarrow> copyGrid h g = (h1, g') \<Longrightarrow>
   g' = [nxt h ..< nxt h + length g] \<and> nxt h1 = nxt h + length g \<and>
   (\<forall>b. b < nxt h \<longrightarrow> arr h1 b = arr h b) \<and> map (arr h1) g' = map (arr h) g"
proof (induction g arbitrary: h h1 g')
  case Nil
  then show ?case by simp
next
  case (Cons a as)
  let ?h = "h\<lparr>arr := (arr h)(nxt h := arr h a), nxt := Suc (nxt h)\<rparr>"
  obtain h2 as' where c: "copyGrid ?h as = (h2, as')" by (cases "copyGrid ?h as")
  have nh: "nxt ?h = Suc (nxt h)" by simp
  have ah: "arr ?h = (arr h)(nxt h := arr h a)" by simp
  from Cons.prems(1) have a: "a < nxt h" and as: "\<forall>b \<in> set as. b < nxt h"
    by (simp_all add: list_all_iff)
  from as have w: "list_all (\<lambda>b. b < nxt ?h) as" by (simp add: list_all_iff less_Suc_eq)
  note ih = Cons.IH[OF w c]
  from ih have i1: "as' = [nxt ?h ..< nxt ?h + length as]" by blast
  from ih have i2: "nxt h2 = nxt ?h + length as" by blast
  from ih have i3: "\<forall>b. b < nxt ?h \<longrightarrow> arr h2 b = arr ?h b" by blast
  from ih have i4: "map (arr h2) as' = map (arr ?h) as" by blast
  from Cons.prems(2) c have r: "h1 = h2" "g' = nxt h # as'" by (simp_all add: alloc_def)
  from i3 have here: "arr h2 (nxt h) = arr h a" by simp
  have below: "arr h2 b = arr h b" if "b < nxt h" for b
  proof -
    from that i3 have "arr h2 b = arr ?h b" by simp
    with that show ?thesis by simp
  qed
  have "map (arr ?h) as = map (arr h) as" using as by auto
  with i4 have rest: "map (arr h2) as' = map (arr h) as" by simp
  have e: "nxt h + length (a # as) = Suc (nxt h) + length as" by simp
  have "[nxt h ..< Suc (nxt h) + length as] = nxt h # [Suc (nxt h) ..< Suc (nxt h) + length as]"
    by (rule upt_conv_Cons) simp
  with r(2) i1 have 1: "g' = [nxt h ..< nxt h + length (a # as)]" by (simp only: nh e)
  from r(1) i2 have 2: "nxt h1 = nxt h + length (a # as)" by simp
  from r(1) below have 3: "\<forall>b. b < nxt h \<longrightarrow> arr h1 b = arr h b" by blast
  from r here rest have 4: "map (arr h1) g' = map (arr h) (a # as)" by simp
  from 1 2 3 4 show ?case by blast
qed

lemma Level_new_frame:
  assumes "Level_new h g t = Inr (h', L)"
  shows "grid L = g \<and> nxt h' = nxt h \<and> (\<forall>b. b \<notin> set g \<longrightarrow> arr h' b = arr h b) \<and>
         (\<forall>b. length (arr h' b) = length (arr h b))"
proof -
  let ?L0 = "\<lparr>grid = g, ts = t, start = None, clickedTiles = {}\<rparr>"
  from findStart_cases[of h ?L0] show ?thesis
  proof
    assume "findStart h ?L0 = Inr None"
    from Level_new_None[OF this] assms show ?thesis by auto
  next
    assume "\<exists>r c. findStart h ?L0 = Inr (Some (r, c))"
    then obtain r c where f: "findStart h ?L0 = Inr (Some (r, c))" by blast
    from Level_new_Some[OF f] assms show ?thesis by auto
  qed
qed


lemma buildLevels_frame:
  "list_all (list_all (\<lambda>a. a < nxt h)) gs \<Longrightarrow>
   \<exists>h' Ls. buildLevels h gs = Inr (h', Ls) \<and> length Ls = length gs \<and> nxt h \<le> nxt h' \<and>
     (\<forall>b. b < nxt h \<longrightarrow> arr h' b = arr h b)"
proof (induction gs arbitrary: h)
  case Nil
  then show ?case by simp
next
  case (Cons g gs)
  from Cons.prems have g: "list_all (\<lambda>a. a < nxt h) g"
    and gs: "list_all (list_all (\<lambda>a. a < nxt h)) gs" by simp_all
  obtain h1 g' where c: "copyGrid h g = (h1, g')" by (cases "copyGrid h g")
  from copyGrid_fresh[OF g c]
  have c1: "g' = [nxt h ..< nxt h + length g]" "nxt h1 = nxt h + length g"
    "\<forall>b. b < nxt h \<longrightarrow> arr h1 b = arr h b" by blast+
  obtain h2 L where n: "Level_new h1 g' TS = Inr (h2, L)" using Level_new_total by blast
  from Level_new_frame[OF n]
  have n1: "nxt h2 = nxt h1" "\<forall>b. b \<notin> set g' \<longrightarrow> arr h2 b = arr h1 b" by blast+
  from c1(1) n1(2) c1(3) have keep: "\<forall>b. b < nxt h \<longrightarrow> arr h2 b = arr h b" by simp
  from n1(1) c1(2) have le: "nxt h \<le> nxt h2" by simp
  from gs le have "list_all (list_all (\<lambda>a. a < nxt h2)) gs"
    unfolding list_all_iff by (meson less_le_trans)
  from Cons.IH[OF this] obtain h3 Ls where
    b: "buildLevels h2 gs = Inr (h3, Ls)" "length Ls = length gs" "nxt h2 \<le> nxt h3"
      "\<forall>b. b < nxt h2 \<longrightarrow> arr h3 b = arr h2 b" by blast
  from c n b(1) have "buildLevels h (g # gs) = Inr (h3, L # Ls)" by simp
  moreover from b(4) keep le have "\<forall>b. b < nxt h \<longrightarrow> arr h3 b = arr h b" by simp
  ultimately show ?case using b(2,3) le by simp
qed

text \<open>
  Claim C9. Let the rows of \<open>g\<close>, and of every grid of the raw data \<open>gs\<close>, be allocated
  arrays. Then \<open>copyGrid(g)\<close> returns a grid whose rows have the contents of the rows of
  \<open>g\<close>, in order, and are fresh arrays: none is a row of \<open>g\<close>, no two are the same
  array, and no allocated array changes. The constructor run on the copy raises
  nothing and leaves every array allocated before the copy as it was, \<open>g\<close> included.
  So building the levels as the sketch's \<open>setup\<close> does leaves all the raw data unchanged.
\<close>

theorem copyGrid_constructor_keep_raw_data:
  assumes g: "list_all (\<lambda>a. a < nxt h) g"
    and gs: "list_all (list_all (\<lambda>a. a < nxt h)) gs"
  shows "(\<exists>h1 g'. copyGrid h g = (h1, g') \<and> map (arr h1) g' = map (arr h) g \<and>
            set g' \<inter> set g = {} \<and> distinct g' \<and> (\<forall>b. b < nxt h \<longrightarrow> arr h1 b = arr h b) \<and>
            (\<exists>h2 L. Level_new h1 g' t = Inr (h2, L) \<and> grid L = g' \<and>
               map (arr h2) g = map (arr h) g \<and> (\<forall>b. b < nxt h \<longrightarrow> arr h2 b = arr h b))) \<and>
         (\<exists>h' Ls. buildLevels h gs = Inr (h', Ls) \<and> length Ls = length gs \<and>
            map (map (arr h')) gs = map (map (arr h)) gs \<and>
            (\<forall>b. b < nxt h \<longrightarrow> arr h' b = arr h b))"
proof -
  obtain h1 g' where c: "copyGrid h g = (h1, g')" by (cases "copyGrid h g")
  from copyGrid_fresh[OF g c]
  have c1: "g' = [nxt h ..< nxt h + length g]"
    "\<forall>b. b < nxt h \<longrightarrow> arr h1 b = arr h b" "map (arr h1) g' = map (arr h) g" by blast+
  from g c1(1) have disj: "set g' \<inter> set g = {}" by (auto simp: list_all_iff)
  from c1(1) have dist: "distinct g'" by simp
  obtain h2 L where n: "Level_new h1 g' t = Inr (h2, L)" using Level_new_total by blast
  from Level_new_frame[OF n]
  have n1: "grid L = g'" "\<forall>b. b \<notin> set g' \<longrightarrow> arr h2 b = arr h1 b" by blast+
  from c1(1) n1(2) c1(2) have keep: "\<forall>b. b < nxt h \<longrightarrow> arr h2 b = arr h b" by simp
  with g have "map (arr h2) g = map (arr h) g" by (auto simp: list_all_iff)
  with c c1 disj dist n n1(1) keep have first: "\<exists>h1 g'. copyGrid h g = (h1, g') \<and>
      map (arr h1) g' = map (arr h) g \<and>
      set g' \<inter> set g = {} \<and> distinct g' \<and> (\<forall>b. b < nxt h \<longrightarrow> arr h1 b = arr h b) \<and>
      (\<exists>h2 L. Level_new h1 g' t = Inr (h2, L) \<and> grid L = g' \<and>
         map (arr h2) g = map (arr h) g \<and> (\<forall>b. b < nxt h \<longrightarrow> arr h2 b = arr h b))"
    by blast
  from buildLevels_frame[OF gs] obtain h' Ls where
    b: "buildLevels h gs = Inr (h', Ls)" "length Ls = length gs"
      "\<forall>b. b < nxt h \<longrightarrow> arr h' b = arr h b" by blast
  from gs b(3) have "map (map (arr h')) gs = map (map (arr h)) gs"
    by (auto simp: list_all_iff)
  with b have second: "\<exists>h' Ls. buildLevels h gs = Inr (h', Ls) \<and> length Ls = length gs \<and>
      map (map (arr h')) gs = map (map (arr h)) gs \<and>
      (\<forall>b. b < nxt h \<longrightarrow> arr h' b = arr h b)" by blast
  from first second show ?thesis by (rule conjI)
qed


theorem copyGrid_constructor_keep_raw_data_witness:
  "map (arr (fst (copyGrid
       \<lparr>arr = (\<lambda>_. [])(0 := [Num 1, Num 1, Num 1], 1 := [Num 1, Num 2, Num 3]), nxt = 2\<rparr> [0, 1])))
     (snd (copyGrid
       \<lparr>arr = (\<lambda>_. [])(0 := [Num 1, Num 1, Num 1], 1 := [Num 1, Num 2, Num 3]), nxt = 2\<rparr> [0, 1])) =
   [[Num 1, Num 1, Num 1], [Num 1, Num 2, Num 3]]"
proof -
  let ?h = "\<lparr>arr = (\<lambda>_. [])(0 := [Num 1, Num 1, Num 1], 1 := [Num 1, Num 2, Num 3]), nxt = 2\<rparr>"
  have g: "list_all (\<lambda>a. a < nxt ?h) [0, 1]" by simp
  have gs: "list_all (list_all (\<lambda>a. a < nxt ?h)) [[0, 1]]" by simp
  from copyGrid_constructor_keep_raw_data[OF g gs, of 32] obtain h1 g' where
    "copyGrid ?h [0, 1] = (h1, g')" "map (arr h1) g' = map (arr ?h) [0, 1]" by blast
  then show ?thesis by simp
qed

subsection \<open>Reachable levels\<close>

lemma inBounds_lengths:
  "\<forall>a \<in> set (grid L). length (arr h' a) = length (arr h a) \<Longrightarrow>
   inBounds h' L r c = inBounds h L r c"
  by (cases "grid L") (simp_all add: inBounds_def rows_def cols_def)

lemma inBounds_grid:
  "grid L' = grid L \<Longrightarrow> inBounds h L' r c = inBounds h L r c"
  by (simp add: inBounds_def rows_def cols_def)

lemma handleClick_keys:
  assumes "handleClick h L x y = Inr L'"
  shows "grid L' = grid L \<and>
         (\<forall>k \<in> clickedTiles L'. k \<in> clickedTiles L \<or>
            (\<exists>r c. inBounds h L r c = Inr True \<and> k = cellKey r c))"
proof -
  from handleClick_cases[of h L x y] show ?thesis
  proof
    assume "handleClick h L x y = Inr L \<and>
      \<not> (\<exists>r c. jsFloor (jsDiv y (ts L)) = Some r \<and> jsFloor (jsDiv x (ts L)) = Some c \<and>
              inBounds h L r c = Inr True)"
    with assms show ?thesis by simp
  next
    assume "\<exists>r c. jsFloor (jsDiv y (ts L)) = Some r \<and> jsFloor (jsDiv x (ts L)) = Some c \<and>
      inBounds h L r c = Inr True \<and>
      handleClick h L x y =
        Inr (L\<lparr>clickedTiles :=
          (if cellKey r c \<in> clickedTiles L then clickedTiles L - {cellKey r c}
           else insert (cellKey r c) (clickedTiles L))\<rparr>)"
    then obtain r c where b: "inBounds h L r c = Inr True"
      and c: "handleClick h L x y =
        Inr (L\<lparr>clickedTiles :=
          (if cellKey r c \<in> clickedTiles L then clickedTiles L - {cellKey r c}
           else insert (cellKey r c) (clickedTiles L))\<rparr>)" by blast
    from c assms have g: "grid L' = grid L"
      and k: "clickedTiles L' \<subseteq> insert (cellKey r c) (clickedTiles L)"
      by (auto split: if_splits)
    from k b have "\<forall>k \<in> clickedTiles L'. k \<in> clickedTiles L \<or>
            (\<exists>r c. inBounds h L r c = Inr True \<and> k = cellKey r c)" by blast
    with g show ?thesis by simp
  qed
qed

lemma copyGrid_below:
  "copyGrid h g = (h1, g') \<Longrightarrow> nxt h \<le> nxt h1 \<and> (\<forall>b. b < nxt h \<longrightarrow> arr h1 b = arr h b)"
proof (induction g arbitrary: h h1 g')
  case Nil
  then show ?case by simp
next
  case (Cons a as)
  let ?h = "h\<lparr>arr := (arr h)(nxt h := arr h a), nxt := Suc (nxt h)\<rparr>"
  obtain h2 as' where c: "copyGrid ?h as = (h2, as')" by (cases "copyGrid ?h as")
  from Cons.IH[OF c] have i: "nxt ?h \<le> nxt h2" "\<forall>b. b < nxt ?h \<longrightarrow> arr h2 b = arr ?h b"
    by blast+
  from Cons.prems c have r: "h1 = h2" by (simp add: alloc_def)
  from i(1) have 1: "nxt h \<le> nxt h2" by simp
  have 2: "arr h2 b = arr h b" if "b < nxt h" for b
  proof -
    from that i(2) have "arr h2 b = arr ?h b" by simp
    with that show ?thesis by simp
  qed
  from r 1 2 show ?case by blast
qed

lemma reachable_invariant:
  "reachable h L \<Longrightarrow> list_all (\<lambda>a. a < nxt h) (grid L) \<and> keysInBounds h L"
proof (induction rule: reachable.induct)
  case (constructed h g t h' L)
  from Level_new_frame[OF constructed(2)] have f: "grid L = g" "nxt h' = nxt h" by blast+
  from Level_new_unclicked[OF constructed(2)] have "clickedTiles L = {}" .
  with f constructed(1) show ?case by (simp add: keysInBounds_def)
next
  case (clicked h L mouseX mouseY L')
  from handleClick_keys[OF clicked(2)]
  have g: "grid L' = grid L"
    and k: "\<forall>k \<in> clickedTiles L'. k \<in> clickedTiles L \<or>
            (\<exists>r c. inBounds h L r c = Inr True \<and> k = cellKey r c)" by blast+
  from clicked.IH have old: "\<forall>k \<in> clickedTiles L. \<exists>r c. inBounds h L r c = Inr True \<and> k = cellKey r c"
    by (simp add: keysInBounds_def)
  from k old have "\<forall>k \<in> clickedTiles L'. \<exists>r c. inBounds h L r c = Inr True \<and> k = cellKey r c"
    by blast
  then have "keysInBounds h L'" by (simp add: keysInBounds_def inBounds_grid[OF g])
  with g clicked.IH show ?case by simp
next
  case (other_constructed h L g t h' L2)
  from Level_new_frame[OF other_constructed(2)]
  have f: "nxt h' = nxt h" "\<forall>b. length (arr h' b) = length (arr h b)" by blast+
  from f(2) have "inBounds h' L r c = inBounds h L r c" for r c
    by (intro inBounds_lengths) simp
  with other_constructed.IH f(1) show ?case by (simp add: keysInBounds_def)
next
  case (other_copied h L g h' g')
  from copyGrid_below[OF other_copied(2)]
  have f: "nxt h \<le> nxt h'" "\<forall>b. b < nxt h \<longrightarrow> arr h' b = arr h b" by blast+
  from other_copied.IH have w: "\<forall>a \<in> set (grid L). a < nxt h" by (simp add: list_all_iff)
  with f(2) have "\<forall>a \<in> set (grid L). length (arr h' a) = length (arr h a)" by simp
  then have "inBounds h' L r c = inBounds h L r c" for r c by (rule inBounds_lengths)
  moreover from w f(1) have "list_all (\<lambda>a. a < nxt h') (grid L)"
    unfolding list_all_iff by (meson less_le_trans)
  ultimately show ?case using other_copied.IH by (simp add: keysInBounds_def)
qed

text \<open>
  Claim C10. In every reachable state of a level, every key in \<open>clickedTiles\<close> is the key
  of a cell that \<open>inBounds\<close> accepts. \<open>clickedTiles\<close> is empty when the constructor returns,
  and a key that \<open>handleClick\<close> adds is the key of an in-bounds cell. Reachable states
  are those after the constructor, after any click, and after the copying and the
  construction of any other level in the same store.
\<close>

theorem clickedTiles_in_bounds:
  "(reachable h L \<longrightarrow>
      (\<forall>k \<in> clickedTiles L. \<exists>r c. inBounds h L r c = Inr True \<and> k = cellKey r c)) \<and>
   (Level_new h0 g t = Inr (h1, L1) \<longrightarrow> clickedTiles L1 = {}) \<and>
   (handleClick h L x y = Inr L' \<longrightarrow>
      (\<forall>k \<in> clickedTiles L'. k \<in> clickedTiles L \<or>
         (\<exists>r c. inBounds h L r c = Inr True \<and> k = cellKey r c)))"
proof -
  have 1: "reachable h L \<longrightarrow>
      (\<forall>k \<in> clickedTiles L. \<exists>r c. inBounds h L r c = Inr True \<and> k = cellKey r c)"
    using reachable_invariant[of h L] by (simp add: keysInBounds_def)
  have 2: "Level_new h0 g t = Inr (h1, L1) \<longrightarrow> clickedTiles L1 = {}"
    using Level_new_unclicked[of h0 g t h1 L1] by blast
  have 3: "handleClick h L x y = Inr L' \<longrightarrow>
      (\<forall>k \<in> clickedTiles L'. k \<in> clickedTiles L \<or>
         (\<exists>r c. inBounds h L r c = Inr True \<and> k = cellKey r c))"
    using handleClick_keys[of h L x y L'] by blast
  from 1 2 3 show ?thesis by (intro conjI)
qed

theorem clickedTiles_in_bounds_witness:
  "\<exists>r c. inBounds \<lparr>arr = (\<lambda>_. [])(0 := [Num 1, Num 1, Num 1], 1 := [Num 1, Num 0, Num 3]), nxt = 2\<rparr>
            \<lparr>grid = [0, 1], ts = 32, start = Some (1, 1), clickedTiles = {''1,2''}\<rparr> r c = Inr True \<and>
          ''1,2'' = cellKey r c"
proof -
  let ?h = "\<lparr>arr = (\<lambda>_. [])(0 := [Num 1, Num 1, Num 1], 1 := [Num 1, Num 2, Num 3]), nxt = 2\<rparr>"
  let ?h' = "\<lparr>arr = (\<lambda>_. [])(0 := [Num 1, Num 1, Num 1], 1 := [Num 1, Num 0, Num 3]), nxt = 2\<rparr>"
  let ?L = "\<lparr>grid = [0, 1], ts = 32, start = Some (1, 1), clickedTiles = {}\<rparr>"
  let ?L1 = "\<lparr>grid = [0, 1], ts = 32, start = Some (1, 1), clickedTiles = {''1,2''}\<rparr>"
  have w: "list_all (\<lambda>a. a < nxt ?h) [0, 1]" by simp
  have n: "Level_new ?h [0, 1] 32 = Inr (?h', ?L)"
    by (simp add: Level_new_def findStart_def scanRows.simps scanCols.simps rows_def cols_def
        gridAt_def jsGet_def gridSet_def jsSet_def fun_upd_twist)
  have k: "cellKey 1 2 = ''1,2''" by code_simp
  have b: "inBounds ?h' ?L 1 2 = Inr True" by (simp add: inBounds_def rows_def cols_def)
  have c: "handleClick ?h' ?L 70 40 = Inr ?L1"
    using b k click_70_40 by (simp add: handleClick_def)
  have "reachable ?h' ?L1"
    by (rule reachable.clicked[OF reachable.constructed[OF w n] c])
  with clickedTiles_in_bounds[of ?h' ?L1] show ?thesis by simp
qed


subsection \<open>The sketch\<close>

lemma loadLevel_fields:
  "loadLevel S idx = (S', e) \<Longrightarrow> li S' = idx \<and> levels S' = levels S \<and> heap S' = heap S"
  by (auto simp: loadLevel_def Let_def setCell_def resizeCanvas_def
      split: option.splits sum.splits prod.splits)

lemma loadLevel_missing:
  "levelAt (levels S) idx = None \<Longrightarrow> loadLevel S idx = (S\<lparr>li := idx\<rparr>, Some TypeError)"
  by (simp add: loadLevel_def)

lemma loadLevel_player:
  "levelAt (levels S) idx = Some lv \<Longrightarrow>
   player (fst (loadLevel S idx)) =
     (case start lv of Some (r, c) \<Rightarrow> (int r, int c) | None \<Rightarrow> (1, 1))"
  by (auto simp: loadLevel_def Let_def setCell_def resizeCanvas_def
      split: option.splits sum.splits prod.splits)

text \<open>
  Claim C4, as amended. When \<open>levels\<close> has a level at \<open>idx\<close>, \<open>loadLevel(idx)\<close> makes
  \<open>idx\<close> the current index and puts the player on the start cell of that level if
  \<open>start\<close> is not null, and on row 1, column 1 otherwise. When \<open>levels\<close> has no element at
  \<open>idx\<close>, it raises a TypeError once the index is assigned, and places nothing.
\<close>

theorem loadLevel_places_player:
  "(levelAt (levels S) idx = Some lv \<longrightarrow>
      player (fst (loadLevel S idx)) =
        (case start lv of Some (r, c) \<Rightarrow> (int r, int c) | None \<Rightarrow> (1, 1)) \<and>
      li (fst (loadLevel S idx)) = idx) \<and>
   (levelAt (levels S) idx = None \<longrightarrow>
      loadLevel S idx = (S\<lparr>li := idx\<rparr>, Some TypeError))"
proof -
  obtain S' e where l: "loadLevel S idx = (S', e)" by (cases "loadLevel S idx")
  from loadLevel_fields[OF l] l have "li (fst (loadLevel S idx)) = idx" by simp
  with loadLevel_player[of S idx lv] loadLevel_missing[of S idx] show ?thesis by blast
qed

lemma jsRem_nonneg:
  "0 \<le> i \<Longrightarrow> n \<noteq> 0 \<Longrightarrow> jsRem (jsSucc (Idx i)) n = Idx ((i + 1) mod int n)"
  by simp

text \<open>
  Claim C7. With at least one level loaded and a current index \<open>i \<ge> 0\<close>, \<open>nextLevel\<close>
  makes \<open>(i + 1) mod n\<close> the current index, where \<open>n\<close> is the number of levels; that is
  an index of an existing level, and it is 0 when \<open>i\<close> was the last index. (Lemma
  \<open>reachableSketch_index\<close> below: with a level loaded, the index of a reachable sketch
  is such an \<open>i\<close>.)
\<close>

theorem nextLevel_wraps:
  assumes "levels S \<noteq> []" and "li S = Idx i" and "0 \<le> i"
  shows "li (fst (nextLevel S)) = Idx ((i + 1) mod int (length (levels S))) \<and>
         levels (fst (nextLevel S)) = levels S \<and>
         0 \<le> (i + 1) mod int (length (levels S)) \<and>
         (i + 1) mod int (length (levels S)) < int (length (levels S)) \<and>
         levelAt (levels (fst (nextLevel S))) (li (fst (nextLevel S))) =
           Some (levels S ! nat ((i + 1) mod int (length (levels S)))) \<and>
         (i = int (length (levels S)) - 1 \<longrightarrow> li (fst (nextLevel S)) = Idx 0)"
proof -
  let ?n = "length (levels S)"
  from assms(1) have n: "?n \<noteq> 0" by simp
  obtain S' e where l: "nextLevel S = (S', e)" by (cases "nextLevel S")
  from l assms(2) jsRem_nonneg[OF assms(3) n]
  have "loadLevel S (Idx ((i + 1) mod int ?n)) = (S', e)" by (simp add: nextLevel_def)
  from loadLevel_fields[OF this] l
  have f: "li (fst (nextLevel S)) = Idx ((i + 1) mod int ?n)" "levels (fst (nextLevel S)) = levels S"
    by simp_all
  from n have b: "0 \<le> (i + 1) mod int ?n" "(i + 1) mod int ?n < int ?n" by simp_all
  from f b have a: "levelAt (levels (fst (nextLevel S))) (li (fst (nextLevel S))) =
      Some (levels S ! nat ((i + 1) mod int ?n))" by simp
  have w: "i = int ?n - 1 \<longrightarrow> li (fst (nextLevel S)) = Idx 0" using f(1) by simp
  from f b a w show ?thesis by (intro conjI)
qed

lemma buildLevels_length: "buildLevels h gs = Inr (h', Ls) \<Longrightarrow> length Ls = length gs"
  by (induction gs arbitrary: h h' Ls) (auto split: prod.splits sum.splits)

lemma reachableSketch_index:
  "reachableSketch S \<Longrightarrow>
   levels S \<noteq> [] \<longrightarrow> (\<exists>i. li S = Idx i \<and> 0 \<le> i \<and> i < int (length (levels S)))"
proof (induction rule: reachableSketch.induct)
  case (initial S)
  then show ?case by simp
next
  case (after_setup S newPlayer S' e)
  show ?case
  proof (cases "buildLevels (heap S) (levelsData S)")
    case (Inl e')
    with after_setup show ?thesis by (simp add: setupSketch_def)
  next
    case (Inr p)
    obtain h' Ls where p: "p = (h', Ls)" by (cases p)
    with Inr after_setup(2)
    have "loadLevel (S\<lparr>heap := h', levels := Ls, player := newPlayer\<rparr>) (Idx 0) = (S', e)"
      by (simp add: setupSketch_def)
    from loadLevel_fields[OF this] show ?thesis by auto
  qed
next
  case (after_nextLevel S S' e)
  from after_nextLevel(2)
  have l: "loadLevel S (jsRem (jsSucc (li S)) (length (levels S))) = (S', e)"
    by (simp add: nextLevel_def)
  from loadLevel_fields[OF l]
  have f: "li S' = jsRem (jsSucc (li S)) (length (levels S))" "levels S' = levels S" by blast+
  show ?case
  proof
    assume "levels S' \<noteq> []"
    with f(2) have ne: "levels S \<noteq> []" by simp
    with after_nextLevel.IH obtain i where i: "li S = Idx i" "0 \<le> i" by blast
    from ne have n: "length (levels S) \<noteq> 0" by simp
    from f(1) i jsRem_nonneg[OF i(2) n]
    have "li S' = Idx ((i + 1) mod int (length (levels S)))" by simp
    moreover from n have "0 \<le> (i + 1) mod int (length (levels S))"
      "(i + 1) mod int (length (levels S)) < int (length (levels S))" by simp_all
    ultimately show "\<exists>i. li S' = Idx i \<and> 0 \<le> i \<and> i < int (length (levels S'))"
      using f(2) by simp
  qed
next
  case (after_mousePressed S mouseX mouseY S' e)
  from after_mousePressed(2) have "li S' = li S \<and> length (levels S') = length (levels S)"
    by (auto simp: mousePressed_def split: index.splits option.splits sum.splits)
  with after_mousePressed.IH show ?case by auto
qed

theorem loadLevel_places_player_witness:
  "player (fst (loadLevel
     \<lparr>heap = \<lparr>arr = (\<lambda>_. [])(0 := [Num 1, Num 0]), nxt = 1\<rparr>, levelsData = [], levels =
        [\<lparr>grid = [0], ts = 32, start = Some (0, 1), clickedTiles = {}\<rparr>], li = Idx 0,
      player = (0, 0), canvas = (0, 0)\<rparr> (Idx 0))) = (0, 1)"
proof -
  let ?L = "\<lparr>grid = [0], ts = 32, start = Some (0, 1), clickedTiles = {}\<rparr>"
  let ?S = "\<lparr>heap = \<lparr>arr = (\<lambda>_. [])(0 := [Num 1, Num 0]), nxt = 1\<rparr>, levelsData = [],
    levels = [?L], li = Idx 0, player = (0, 0), canvas = (0, 0)\<rparr>"
  have "levelAt (levels ?S) (Idx 0) = Some ?L" by simp
  with loadLevel_places_player[of ?S "Idx 0" ?L] show ?thesis by simp
qed

text \<open>
  With no level at the index (here no level at all, as after loading an empty list of
  levels), \<open>loadLevel(0)\<close> raises a TypeError and the player stays where it was, which is
  neither a start cell nor row 1, column 1.
\<close>

theorem loadLevel_missing_level_counterexample:
  "loadLevel
     \<lparr>heap = \<lparr>arr = (\<lambda>_. []), nxt = 0\<rparr>, levelsData = [], levels = [], li = Idx 0,
      player = (0, 0), canvas = (0, 0)\<rparr> (Idx 0) =
   (\<lparr>heap = \<lparr>arr = (\<lambda>_. []), nxt = 0\<rparr>, levelsData = [], levels = [], li = Idx 0,
      player = (0, 0), canvas = (0, 0)\<rparr>, Some TypeError) \<and>
   player (fst (loadLevel
     \<lparr>heap = \<lparr>arr = (\<lambda>_. []), nxt = 0\<rparr>, levelsData = [], levels = [], li = Idx 0,
      player = (0, 0), canvas = (0, 0)\<rparr> (Idx 0))) \<noteq> (1, 1)"
  by (simp add: loadLevel_def)

theorem nextLevel_wraps_witness:
  "li (fst (nextLevel
     \<lparr>heap = \<lparr>arr = (\<lambda>_. [])(0 := [Num 1, Num 0]), nxt = 1\<rparr>, levelsData = [], levels =
        [\<lparr>grid = [0], ts = 32, start = Some (0, 1), clickedTiles = {}\<rparr>,
         \<lparr>grid = [0], ts = 32, start = None, clickedTiles = {}\<rparr>], li = Idx 1,
      player = (0, 0), canvas = (0, 0)\<rparr>)) = Idx 0"
proof -
  let ?S = "\<lparr>heap = \<lparr>arr = (\<lambda>_. [])(0 := [Num 1, Num 0]), nxt = 1\<rparr>, levelsData = [], levels =
        [\<lparr>grid = [0], ts = 32, start = Some (0, 1), clickedTiles = {}\<rparr>,
         \<lparr>grid = [0], ts = 32, start = None, clickedTiles = {}\<rparr>], li = Idx 1,
      player = (0, 0), canvas = (0, 0)\<rparr>"
  have a: "levels ?S \<noteq> []" by simp
  have b: "li ?S = Idx 1" by simp
  have c: "(0::int) \<le> 1" by simp
  from nextLevel_wraps[OF a b c] show ?thesis by simp
qed

end
